theory Spec2Isabelle
  imports Main
begin

section \<open>JavaScript values\<close>

text \<open>
  The few JavaScript values the wrapper inspects: \<open>undefined\<close>, booleans and strings.
  \<open>truthy\<close> is the language's conversion to a boolean and \<open>js_and\<close> its \<open>&&\<close>
  operator, which returns the left operand when that one is falsy.
\<close>

datatype jsval = JUndefined | JBool bool | JString string

fun truthy :: "jsval \<Rightarrow> bool" where
  "truthy JUndefined = False"
| "truthy (JBool b) = b"
| "truthy (JString str) = (str \<noteq> [])"

definition js_and :: "jsval \<Rightarrow> jsval \<Rightarrow> jsval" where
  "js_and a b = (if truthy a then b else a)"

section \<open>Data of the gRPC wrapper (src/services/grpc/grpc.js)\<close>

type_synonym key = string
type_synonym addr = nat
type_synonym hid = nat
type_synonym pid = nat
type_synonym tid = nat

text \<open>The connection options; a field the caller left out reads as \<open>undefined\<close>.\<close>

record connection_options =
  opt_id :: jsval
  opt_type :: jsval
  opt_host :: jsval
  opt_cert :: jsval
  opt_macaroon :: jsval
  opt_protoDir :: jsval

text \<open>The object returned by \<open>getConnectionSettings\<close>.\<close>

record settings =
  host :: jsval
  cert :: jsval
  macaroon :: jsval
  waitForMacaroon :: bool
  waitForCert :: bool
  useMacaroon :: jsval
  protoDir :: jsval

datatype error = AlreadyConnected | TypeError | TeardownFailed

text \<open>
  What calling a method of the Lightning service gives: a stream handle or \<open>undefined\<close>.
  A registry lists the callable methods; a name it does not list is not a function, and
  calling it raises a TypeError.
\<close>

datatype call_result = ReturnsUndefined | ReturnsStream

type_synonym registry = "(string \<times> call_result) list"

text \<open>
  The transport object (an instance of the external class LndGrpc): its state-machine
  state, the transitions \<open>can\<close> currently allows, the settings it was built from, its
  Lightning service (absent when the service group has no such member), the event names
  on which the wrapper has a handler attached, and how many times a teardown was
  requested on it.
\<close>

record transport =
  tstate :: string
  tcan :: "string list"
  tsettings :: settings
  tservices :: "registry option"
  thandlers :: "string list"
  teardowns :: nat

text \<open>
  The closures which \<open>subscribe\<close> (lines 150 and 155) and \<open>cancelSubscription\<close> (lines 203
  and 211) attach to a stream handle. Each captures the key; those of
  \<open>cancelSubscription\<close> also capture the \<open>resolve\<close> function of the promise they settle.
\<close>

datatype listener =
    OnEndSubscribe key
  | OnStatusSubscribe key
  | OnStatusCancel key pid
  | OnEndCancel key pid

fun key_of :: "listener \<Rightarrow> key" where
  "key_of (OnEndSubscribe k) = k"
| "key_of (OnStatusSubscribe k) = k"
| "key_of (OnStatusCancel k p) = k"
| "key_of (OnEndCancel k p) = k"

fun pid_of :: "listener \<Rightarrow> pid option" where
  "pid_of (OnEndSubscribe k) = None"
| "pid_of (OnStatusSubscribe k) = None"
| "pid_of (OnStatusCancel k p) = Some p"
| "pid_of (OnEndCancel k p) = Some p"

text \<open>
  A stream handle: the remote method that opened it, its listeners for the \<open>end\<close> and the
  \<open>status\<close> event in the order of registration, and the number of \<open>cancel()\<close> requests
  sent on it.
\<close>

record stream =
  smethod :: string
  on_end :: "listener list"
  on_status :: "listener list"
  cancels :: nat

text \<open>
  The events of a stream: a data event carrying the payload's \<open>synced_to_chain\<close> member,
  a status event carrying the status code, and the end event.
\<close>

datatype stream_event = Data jsval | Status nat | End

definition CANCELLED :: nat where
  "CANCELLED = 1"

fun terminating :: "stream_event \<Rightarrow> bool" where
  "terminating End = True"
| "terminating (Status c) = (c = CANCELLED)"
| "terminating (Data d) = False"

text \<open>The messages the wrapper writes to \<open>grpcLog\<close>.\<close>

datatype log_entry =
    InfoSubscribing "key list"
  | WarnAlreadyActive key
  | InfoStarted key
  | InfoEnded key
  | InfoCancelled key
  | InfoUnsubscribing "key list"
  | WarnNotActive key
  | InfoUnsubscribingFrom key
  | InfoUnsubscribed key

text \<open>
  A subscription table is a JavaScript object: its own properties in insertion order. A
  property can be present and hold \<open>undefined\<close> (the value \<open>None\<close>). The table is made
  by an object literal, so a property read on it also finds the members of
  \<open>Object.prototype\<close>.
\<close>

type_synonym table = "(key \<times> hid option) list"

definition keys :: "table \<Rightarrow> key list" where
  "keys tbl = map fst tbl"

text \<open>The stream handle an own property of the table holds under the key, if any.\<close>

definition own_handle :: "table \<Rightarrow> key \<Rightarrow> hid option" where
  "own_handle tbl k = (case map_of tbl k of Some (Some h) \<Rightarrow> Some h | _ \<Rightarrow> None)"

text \<open>
  The names every plain object inherits from \<open>Object.prototype\<close>. Read on an object that
  has no own property of that name, each gives a function (\<open>__proto__\<close> gives the
  prototype object): a truthy value that is not a stream handle and has neither an \<open>on\<close>
  nor a \<open>cancel\<close> method.
\<close>

definition object_prototype_names :: "string list" where
  "object_prototype_names =
     [''constructor'', ''__defineGetter__'', ''__defineSetter__'', ''hasOwnProperty'',
      ''__lookupGetter__'', ''__lookupSetter__'', ''isPrototypeOf'',
      ''propertyIsEnumerable'', ''toString'', ''valueOf'', ''__proto__'',
      ''toLocaleString'']"

text \<open>
  What the property read \<open>tbl[k]\<close> gives: the handle held by an own property, a member
  inherited from \<open>Object.prototype\<close> when the table has no own property of that name, or
  \<open>undefined\<close> (the property is absent, or present and holding \<open>undefined\<close>). Only the last
  is falsy.
\<close>

datatype member = NoMember | OwnHandle hid | InheritedMember

definition read_key :: "table \<Rightarrow> key \<Rightarrow> member" where
  "read_key tbl k =
     (case map_of tbl k of
        Some (Some h) \<Rightarrow> OwnHandle h
      | Some None \<Rightarrow> NoMember
      | None \<Rightarrow> if k \<in> set object_prototype_names then InheritedMember else NoMember)"

text \<open>\<open>tbl[k] = v\<close>: overwrite in place, or append a new property.\<close>

fun assign :: "table \<Rightarrow> key \<Rightarrow> hid option \<Rightarrow> table" where
  "assign [] k v = [(k, v)]"
| "assign (p # ps) k v = (if fst p = k then (k, v) # ps else p # assign ps k v)"

text \<open>\<open>delete tbl[k]\<close>.\<close>

definition delete :: "key \<Rightarrow> table \<Rightarrow> table" where
  "delete k tbl = filter (\<lambda>p. fst p \<noteq> k) tbl"

text \<open>
  The state of the one ZapGrpc instance together with the objects it reaches.

  The fields \<open>options\<close>, \<open>services\<close>, \<open>subscriptions\<close> and \<open>grpc\<close> are the instance's own;
  \<open>this_useMacaroon\<close> is the member \<open>this.useMacaroon\<close> read at line 231. The field
  \<open>subscriptions\<close> holds a reference: the address in \<open>heap\<close> of the table object, so that
  two references to one object see each other's updates. \<open>grpc\<close> holds the index in
  \<open>transports\<close> of the transport object, \<open>None\<close> while the member was never assigned.
  \<open>streams\<close> are the stream handles opened so far, \<open>promises\<close> the promises made by
  \<open>cancelSubscription\<close> (\<open>True\<close> once resolved), \<open>forwarded\<close> the method names whose
  events are forwarded to the instance, \<open>gates\<close> the number of listeners which
  \<open>subscribeAll\<close> has registered on the instance for \<open>subscribeGetInfo.data\<close>, \<open>emitted\<close>
  the events the instance itself has emitted, and \<open>grpcLog\<close> the log.
\<close>

record zstate =
  options :: connection_options
  services :: "registry option"
  subscriptions :: addr
  grpc :: "tid option"
  this_useMacaroon :: jsval
  heap :: "table list"
  transports :: "transport list"
  streams :: "stream list"
  promises :: "bool list"
  forwarded :: "string list"
  gates :: nat
  emitted :: "string list"
  grpcLog :: "log_entry list"

section \<open>Static members and construction\<close>

text \<open>
  \<open>INITIAL_STATE\<close> (lines 19 to 23) holds three object literals, each evaluated once when
  the class is defined. The subscriptions object lives at address 0 of the heap;
  the other two are never written to (\<open>connect\<close> rebinds \<open>this.options\<close> and
  \<open>this.services\<close> before anything is stored through them), so they are kept by value.
\<close>

definition INITIAL_STATE_options :: connection_options where
  "INITIAL_STATE_options =
     \<lparr>opt_id = JUndefined, opt_type = JUndefined, opt_host = JUndefined,
      opt_cert = JUndefined, opt_macaroon = JUndefined, opt_protoDir = JUndefined\<rparr>"

definition INITIAL_STATE_services :: "registry option" where
  "INITIAL_STATE_services = None"

definition INITIAL_STATE_subscriptions :: addr where
  "INITIAL_STATE_subscriptions = 0"

definition SUBSCRIPTIONS :: "(key \<times> string) list" where
  "SUBSCRIPTIONS =
     [(''invoices'', ''subscribeInvoices''),
      (''transactions'', ''subscribeChannelGraph''),
      (''channelgraph'', ''subscribeTransactions''),
      (''info'', ''subscribeGetInfo'')]"

definition GRPC_WALLET_UNLOCKER_SERVICE_ACTIVE :: string where
  "GRPC_WALLET_UNLOCKER_SERVICE_ACTIVE = ''GRPC_WALLET_UNLOCKER_SERVICE_ACTIVE''"

definition GRPC_LIGHTNING_SERVICE_ACTIVE :: string where
  "GRPC_LIGHTNING_SERVICE_ACTIVE = ''GRPC_LIGHTNING_SERVICE_ACTIVE''"

text \<open>\<open>Object.assign(this, ZapGrpc.INITIAL_STATE)\<close>: the three members are copied, the
  subscriptions member as a reference.\<close>

definition assign_INITIAL_STATE :: "zstate \<Rightarrow> zstate" where
  "assign_INITIAL_STATE s =
     s\<lparr>options := INITIAL_STATE_options,
       services := INITIAL_STATE_services,
       subscriptions := INITIAL_STATE_subscriptions\<rparr>"

text \<open>The state after the class definition and \<open>new ZapGrpc()\<close> (lines 32 to 35).\<close>

definition constructor :: zstate where
  "constructor =
     assign_INITIAL_STATE
       \<lparr>options = INITIAL_STATE_options, services = None, subscriptions = 0, grpc = None,
        this_useMacaroon = JUndefined, heap = [[]], transports = [], streams = [],
        promises = [], forwarded = [], gates = 0, emitted = [], grpcLog = []\<rparr>"

section \<open>Reading and writing the subscription table\<close>

definition table :: "zstate \<Rightarrow> table" where
  "table s = heap s ! subscriptions s"

definition set_table :: "table \<Rightarrow> zstate \<Rightarrow> zstate" where
  "set_table tbl s = s\<lparr>heap := (heap s)[subscriptions s := tbl]\<rparr>"

text \<open>\<open>this.subscriptions[key]\<close> as the code reads it (lines 110, 134 and 189).\<close>

definition entry :: "zstate \<Rightarrow> key \<Rightarrow> member" where
  "entry s k = read_key (table s) k"

text \<open>The stream handle the table itself holds under the key: the key is active.\<close>

definition active :: "zstate \<Rightarrow> key \<Rightarrow> hid option" where
  "active s k = own_handle (table s) k"

definition logmsg :: "log_entry \<Rightarrow> zstate \<Rightarrow> zstate" where
  "logmsg m s = s\<lparr>grpcLog := grpcLog s @ [m]\<rparr>"

section \<open>Library and helper functions\<close>

text \<open>
  \<open>lodash.intersection\<close>: the values of the first array that the second one includes,
  each once, in the order of the first array.
\<close>

fun uniq :: "'a list \<Rightarrow> 'a list" where
  "uniq [] = []"
| "uniq (x # xs) = x # filter (\<lambda>y. y \<noteq> x) (uniq xs)"

definition intersection :: "'a list \<Rightarrow> 'a list \<Rightarrow> 'a list" where
  "intersection xs ys = uniq (filter (\<lambda>x. x \<in> set ys) xs)"

text \<open>
  Modelled from the spec: \<open>forwardAll\<close> and \<open>unforwardAll\<close> of \<open>./helpers\<close>, which is not
  among the source files. \<open>forwardAll\<close> attaches the forwarders of a method's events to
  the instance, without double registration; \<open>unforwardAll\<close> detaches exactly those, and
  detaching a method never forwarded does nothing.
\<close>

definition forwardAll :: "string \<Rightarrow> zstate \<Rightarrow> zstate" where
  "forwardAll m s = s\<lparr>forwarded := List.insert m (forwarded s)\<rparr>"

definition unforwardAll :: "string \<Rightarrow> zstate \<Rightarrow> zstate" where
  "unforwardAll m s = s\<lparr>forwarded := removeAll m (forwarded s)\<rparr>"

text \<open>
  Modelled from the spec: \<open>lightningSubscriptions\<close> of \<open>./lightning.subscriptions\<close>, which
  is not among the source files: one subscription-opening method per entry of
  \<open>SUBSCRIPTIONS\<close>, each returning a stream handle.
\<close>

definition lightningSubscriptions :: registry where
  "lightningSubscriptions = map (\<lambda>(k, m). (m, ReturnsStream)) SUBSCRIPTIONS"

text \<open>\<open>Object.assign(target, source)\<close> on a registry: the source's members win.\<close>

definition object_assign :: "registry \<Rightarrow> registry \<Rightarrow> registry" where
  "object_assign target source = source @ target"

section \<open>getConnectionSettings (lines 228 to 237)\<close>

definition getConnectionSettings :: "zstate \<Rightarrow> settings" where
  "getConnectionSettings s =
     \<lparr>host = opt_host (options s),
      cert = opt_cert (options s),
      macaroon = opt_macaroon (options s),
      waitForMacaroon = (opt_type (options s) = JString ''local''),
      waitForCert = (opt_type (options s) = JString ''local''),
      useMacaroon = js_and (this_useMacaroon s) (JBool (opt_id (options s) \<noteq> JString ''tmp'')),
      protoDir = opt_protoDir (options s)\<rparr>"

section \<open>subscribe (lines 121 to 163)\<close>

text \<open>
  A function that can throw returns the error, if any, with the state reached when it
  was thrown.
\<close>

type_synonym outcome = "error option \<times> zstate"

fun forEach :: "('a \<Rightarrow> zstate \<Rightarrow> outcome) \<Rightarrow> 'a list \<Rightarrow> zstate \<Rightarrow> outcome" where
  "forEach f [] s = (None, s)"
| "forEach f (x # xs) s =
     (case f x s of
        (None, s') \<Rightarrow> forEach f xs s'
      | (Some e, s') \<Rightarrow> (Some e, s'))"

text \<open>The new stream handle with the two listeners of lines 150 and 155.\<close>

definition new_stream :: "string \<Rightarrow> key \<Rightarrow> stream" where
  "new_stream m k =
     \<lparr>smethod = m, on_end = [OnEndSubscribe k], on_status = [OnStatusSubscribe k],
      cancels = 0\<rparr>"

text \<open>The body of the loop, lines 134 to 161.\<close>

definition subscribe_key :: "key \<Rightarrow> zstate \<Rightarrow> outcome" where
  "subscribe_key k s =
     (case entry s k of
        OwnHandle h \<Rightarrow> (None, logmsg (WarnAlreadyActive k) s)
      | InheritedMember \<Rightarrow> (None, logmsg (WarnAlreadyActive k) s)
      | NoMember \<Rightarrow>
          (case services s of
             None \<Rightarrow> (Some TypeError, s)
           | Some lightning \<Rightarrow>
               (case map_of SUBSCRIPTIONS k of
                  None \<Rightarrow> (Some TypeError, s)
                | Some m \<Rightarrow>
                    (case map_of lightning m of
                       None \<Rightarrow> (Some TypeError, s)
                     | Some ReturnsUndefined \<Rightarrow>
                         (None,
                          forwardAll m
                            (logmsg (InfoStarted k) (set_table (assign (table s) k None) s)))
                     | Some ReturnsStream \<Rightarrow>
                         (let h = length (streams s);
                              s1 = s\<lparr>streams := streams s @ [new_stream m k]\<rparr>
                          in (None,
                              forwardAll m
                                (logmsg (InfoStarted k)
                                   (set_table (assign (table s1) k (Some h)) s1))))))))"

definition allSubKeys :: "key list" where
  "allSubKeys = map fst SUBSCRIPTIONS"

definition subscribe_targets :: "key list \<Rightarrow> key list" where
  "subscribe_targets streams_arg =
     (if streams_arg \<noteq> [] then intersection allSubKeys streams_arg else allSubKeys)"

definition subscribe :: "key list \<Rightarrow> zstate \<Rightarrow> outcome" where
  "subscribe streams_arg s =
     (let activeSubKeys = subscribe_targets streams_arg
      in if activeSubKeys = [] then (None, s)
         else forEach subscribe_key activeSubKeys (logmsg (InfoSubscribing activeSubKeys) s))"

section \<open>cancelSubscription and unsubscribe (lines 170 to 223)\<close>

text \<open>
  What an asynchronous function hands back: a promise that is already fulfilled (the
  function returned before making one), the promise with the given identity, or a
  promise rejected with the error the function threw.
\<close>

datatype completion = Fulfilled | Pending pid | Rejected error

definition add_cancel_listeners :: "key \<Rightarrow> pid \<Rightarrow> stream \<Rightarrow> stream" where
  "add_cancel_listeners k p st =
     st\<lparr>on_status := on_status st @ [OnStatusCancel k p],
        on_end := on_end st @ [OnEndCancel k p]\<rparr>"

definition request_cancel :: "stream \<Rightarrow> stream" where
  "request_cancel st = st\<lparr>cancels := Suc (cancels st)\<rparr>"

text \<open>
  When the read of line 189 finds a member inherited from \<open>Object.prototype\<close>, the
  function goes on: it logs, detaches forwarders, and then calls \<open>on\<close> (line 203) and
  \<open>cancel\<close> (line 219) on a value that has neither, which throws a TypeError; the
  promise made at line 202 is rejected and nothing keeps it.
\<close>

definition cancelSubscription :: "key \<Rightarrow> zstate \<Rightarrow> completion \<times> zstate" where
  "cancelSubscription k s =
     (case entry s k of
        NoMember \<Rightarrow> (Fulfilled, logmsg (WarnNotActive k) s)
      | InheritedMember \<Rightarrow>
          (let s1 = logmsg (InfoUnsubscribingFrom k) s;
               s2 = (case map_of SUBSCRIPTIONS k of
                       None \<Rightarrow> s1
                     | Some m \<Rightarrow> unforwardAll m s1)
           in (Rejected TypeError, s2))
      | OwnHandle h \<Rightarrow>
          (let s1 = logmsg (InfoUnsubscribingFrom k) s;
               s2 = (case map_of SUBSCRIPTIONS k of
                       None \<Rightarrow> s1
                     | Some m \<Rightarrow> unforwardAll m s1);
               p = length (promises s2);
               s3 = s2\<lparr>promises := promises s2 @ [False]\<rparr>;
               s4 = s3\<lparr>streams := (streams s3)[h := add_cancel_listeners k p (streams s3 ! h)]\<rparr>;
               s5 = s4\<lparr>streams := (streams s4)[h := request_cancel (streams s4 ! h)]\<rparr>
           in (Pending p, s5)))"

text \<open>\<open>activeSubKeys.map(key => this.cancelSubscription(key))\<close>: every call is made, one
  after the other, each running up to the point where it returns its promise.\<close>

fun cancel_each :: "key list \<Rightarrow> zstate \<Rightarrow> completion list \<times> zstate" where
  "cancel_each [] s = ([], s)"
| "cancel_each (k # ks) s =
     (case cancelSubscription k s of
        (c, s') \<Rightarrow> (case cancel_each ks s' of (cs, s'') \<Rightarrow> (c # cs, s'')))"

definition unsubscribe_targets :: "key list \<Rightarrow> zstate \<Rightarrow> key list" where
  "unsubscribe_targets streams_arg s =
     (if streams_arg \<noteq> [] then intersection (keys (table s)) streams_arg
      else keys (table s))"

text \<open>\<open>unsubscribe\<close> returns the cancellations it awaits with \<open>Promise.all\<close>.\<close>

definition unsubscribe :: "key list \<Rightarrow> zstate \<Rightarrow> completion list \<times> zstate" where
  "unsubscribe streams_arg s =
     (let activeSubKeys = unsubscribe_targets streams_arg s
      in if activeSubKeys = [] then ([], s)
         else cancel_each activeSubKeys (logmsg (InfoUnsubscribing activeSubKeys) s))"

definition resolved :: "zstate \<Rightarrow> completion \<Rightarrow> bool" where
  "resolved s c =
     (case c of
        Fulfilled \<Rightarrow> True
      | Pending p \<Rightarrow> p < length (promises s) \<and> promises s ! p
      | Rejected e \<Rightarrow> False)"

text \<open>The promise of \<open>unsubscribe\<close> is fulfilled once every cancellation is.\<close>

definition all_resolved :: "zstate \<Rightarrow> completion list \<Rightarrow> bool" where
  "all_resolved s cs = list_all (resolved s) cs"

section \<open>subscribeAll and its listener (lines 102 to 115)\<close>

text \<open>The listener of line 108, called with the payload's \<open>synced_to_chain\<close>.\<close>

definition gate :: "jsval \<Rightarrow> zstate \<Rightarrow> outcome" where
  "gate synced_to_chain s =
     (if truthy synced_to_chain \<and> entry s ''channelgraph'' = NoMember then
        (case subscribe [''channelgraph''] s of
           (Some e, s') \<Rightarrow> (Some e, s')
         | (None, s') \<Rightarrow> (None, snd (unsubscribe [''info''] s')))
      else (None, s))"

definition subscribeAll :: "zstate \<Rightarrow> outcome" where
  "subscribeAll s =
     (case subscribe [''invoices'', ''transactions'', ''info''] s of
        (Some e, s') \<Rightarrow> (Some e, s')
      | (None, s') \<Rightarrow> (None, s'\<lparr>gates := Suc (gates s')\<rparr>))"

section \<open>Events\<close>

definition resolve :: "pid \<Rightarrow> zstate \<Rightarrow> zstate" where
  "resolve p s = s\<lparr>promises := (promises s)[p := True]\<rparr>"

definition delete_key :: "key \<Rightarrow> zstate \<Rightarrow> zstate" where
  "delete_key k s = set_table (delete k (table s)) s"

text \<open>One listener of a stream handle, called with the event it is registered for.\<close>

fun run_listener :: "listener \<Rightarrow> stream_event \<Rightarrow> zstate \<Rightarrow> zstate" where
  "run_listener (OnEndSubscribe k) End s = delete_key k (logmsg (InfoEnded k) s)"
| "run_listener (OnStatusSubscribe k) (Status c) s =
     (if c = CANCELLED then logmsg (InfoCancelled k) (delete_key k s) else s)"
| "run_listener (OnStatusCancel k p) (Status c) s =
     (if c = CANCELLED then resolve p (logmsg (InfoUnsubscribed k) (delete_key k s)) else s)"
| "run_listener (OnEndCancel k p) End s =
     resolve p (logmsg (InfoUnsubscribed k) (delete_key k s))"
| "run_listener l ev s = s"

fun run_listeners :: "listener list \<Rightarrow> stream_event \<Rightarrow> zstate \<Rightarrow> zstate" where
  "run_listeners [] ev s = s"
| "run_listeners (l # ls) ev s = run_listeners ls ev (run_listener l ev s)"

text \<open>The listeners of \<open>subscribeGetInfo.data\<close> on the instance, called in turn; a
  listener that throws ends the emission.\<close>

fun run_gates :: "nat \<Rightarrow> jsval \<Rightarrow> zstate \<Rightarrow> outcome" where
  "run_gates 0 d s = (None, s)"
| "run_gates (Suc n) d s =
     (case gate d s of
        (None, s') \<Rightarrow> run_gates n d s'
      | (Some e, s') \<Rightarrow> (Some e, s'))"

text \<open>The instance emits an event on itself: only \<open>subscribeGetInfo.data\<close> has listeners
  registered by this class.\<close>

definition bus_emit :: "string \<Rightarrow> jsval \<Rightarrow> zstate \<Rightarrow> outcome" where
  "bus_emit name d s =
     (if name = ''subscribeGetInfo.data'' then run_gates (gates s) d s else (None, s))"

text \<open>
  The stream handle \<open>h\<close> emits an event. An end or status event calls the handle's
  listeners; a data event reaches the instance under the name
  \<open>method.data\<close> when the method's events are forwarded.
\<close>

definition stream_emit :: "hid \<Rightarrow> stream_event \<Rightarrow> zstate \<Rightarrow> outcome" where
  "stream_emit h ev s =
     (if h < length (streams s) then
        (case ev of
           End \<Rightarrow> (None, run_listeners (on_end (streams s ! h)) ev s)
         | Status c \<Rightarrow> (None, run_listeners (on_status (streams s ! h)) ev s)
         | Data d \<Rightarrow>
             (if smethod (streams s ! h) \<in> set (forwarded s)
              then bus_emit (smethod (streams s ! h) @ ''.data'') d s
              else (None, s)))
      else (None, s))"

section \<open>connect and disconnect (lines 40 to 90)\<close>

text \<open>
  \<open>connect\<close> takes the options and the external constructor \<open>LndGrpc\<close>. The handlers of
  lines 59 to 68 are recorded by name on the new transport. Of the two injections of
  lines 55 and 56 only the second, which comes last and so wins, provides streaming
  methods; the helper calls of \<open>lightningMethods\<close> are never called by this class. The
  promise returned by the transport's own \<open>connect\<close> belongs to the external library.
\<close>

definition already_connected :: "zstate \<Rightarrow> bool" where
  "already_connected s =
     (case grpc s of
        None \<Rightarrow> False
      | Some i \<Rightarrow> tstate (transports s ! i) \<noteq> ''ready'')"

definition connect :: "connection_options \<Rightarrow> (settings \<Rightarrow> transport) \<Rightarrow> zstate \<Rightarrow> outcome" where
  "connect opts LndGrpc s =
     (if already_connected s then (Some AlreadyConnected, s)
      else
        (let s1 = s\<lparr>options := opts\<rparr>;
             grpcOptions = getConnectionSettings s1;
             i = length (transports s1);
             t = LndGrpc grpcOptions;
             s2 = s1\<lparr>transports := transports s1 @ [t], grpc := Some i\<rparr>
         in case tservices t of
              None \<Rightarrow> (Some TypeError, s2\<lparr>services := None\<rparr>)
            | Some lightning \<Rightarrow>
                (let injected = object_assign lightning lightningSubscriptions;
                     t' = t\<lparr>tservices := Some injected,
                            thandlers := thandlers t @ [''locked'', ''active'', ''disconnected'']\<rparr>
                 in (None,
                     s2\<lparr>services := Some injected,
                        transports := (transports s2)[i := t']\<rparr>))))"

text \<open>The transport \<open>i\<close> emits one of its lifecycle events (handlers of lines 59 to 68).\<close>

definition transport_emit :: "tid \<Rightarrow> string \<Rightarrow> zstate \<Rightarrow> outcome" where
  "transport_emit i name s =
     (if i < length (transports s) \<and> name \<in> set (thandlers (transports s ! i)) then
        (if name = ''locked'' then
           (None, s\<lparr>emitted := emitted s @ [GRPC_WALLET_UNLOCKER_SERVICE_ACTIVE]\<rparr>)
         else if name = ''active'' then
           subscribeAll (s\<lparr>emitted := emitted s @ [GRPC_LIGHTNING_SERVICE_ACTIVE]\<rparr>)
         else if name = ''disconnected'' then
           (None, snd (unsubscribe [] s))
         else (None, s))
      else (None, s))"

text \<open>
  \<open>disconnect\<close> runs in two parts. The first runs up to the \<open>await\<close> of line 80, or to the
  end when there is nothing to await. The second runs when the awaited teardown settles:
  a rejected teardown is thrown at line 80, and nothing below it is executed.
\<close>

datatype progress = Completed | Awaiting

definition removeAllListeners :: "zstate \<Rightarrow> zstate" where
  "removeAllListeners s =
     (case grpc s of
        None \<Rightarrow> s
      | Some i \<Rightarrow>
          s\<lparr>transports :=
              (transports s)
                [i := (transports s ! i)
                   \<lparr>thandlers :=
                      filter (\<lambda>n. n \<notin> {''locked'', ''active'', ''disconnected''})
                        (thandlers (transports s ! i))\<rparr>]\<rparr>)"

definition disconnect :: "zstate \<Rightarrow> progress \<times> zstate" where
  "disconnect s =
     (case grpc s of
        None \<Rightarrow> (Completed, assign_INITIAL_STATE s)
      | Some i \<Rightarrow>
          (if ''disconnect'' \<in> set (tcan (transports s ! i)) then
             (Awaiting,
              s\<lparr>transports :=
                  (transports s)
                    [i := (transports s ! i)\<lparr>teardowns := Suc (teardowns (transports s ! i))\<rparr>]\<rparr>)
           else (Completed, assign_INITIAL_STATE (removeAllListeners s))))"

definition disconnect_settled :: "bool \<Rightarrow> zstate \<Rightarrow> outcome" where
  "disconnect_settled fulfilled s =
     (if fulfilled then (None, assign_INITIAL_STATE (removeAllListeners s))
      else (Some TeardownFailed, s))"

text \<open>The transport object changes its own state (it belongs to the external library).\<close>

definition transport_moves :: "tid \<Rightarrow> string \<Rightarrow> string list \<Rightarrow> zstate \<Rightarrow> zstate" where
  "transport_moves i st can s =
     (if i < length (transports s)
      then s\<lparr>transports := (transports s)[i := (transports s ! i)\<lparr>tstate := st, tcan := can\<rparr>]\<rparr>
      else s)"

section \<open>Everything that can happen to the instance\<close>

datatype action =
    Connect connection_options "settings \<Rightarrow> transport"
  | Disconnect
  | DisconnectSettled bool
  | TransportMoves tid string "string list"
  | TransportEmit tid string
  | StreamEmit hid stream_event
  | Subscribe "key list"
  | SubscribeAll
  | Unsubscribe "key list"
  | CancelSubscription key

fun step :: "action \<Rightarrow> zstate \<Rightarrow> zstate" where
  "step (Connect opts LndGrpc) s = snd (connect opts LndGrpc s)"
| "step Disconnect s = snd (disconnect s)"
| "step (DisconnectSettled b) s = snd (disconnect_settled b s)"
| "step (TransportMoves i st can) s = transport_moves i st can s"
| "step (TransportEmit i name) s = snd (transport_emit i name s)"
| "step (StreamEmit h ev) s = snd (stream_emit h ev s)"
| "step (Subscribe ks) s = snd (subscribe ks s)"
| "step SubscribeAll s = snd (subscribeAll s)"
| "step (Unsubscribe ks) s = snd (unsubscribe ks s)"
| "step (CancelSubscription k) s = snd (cancelSubscription k s)"

fun run :: "action list \<Rightarrow> zstate \<Rightarrow> zstate" where
  "run [] s = s"
| "run (a # as) s = run as (step a s)"

section \<open>Notions used to state the properties\<close>

text \<open>The \<open>subscriptions\<close> member refers to an object of the heap.\<close>

definition heap_ok :: "zstate \<Rightarrow> bool" where
  "heap_ok s = (subscriptions s < length (heap s))"

text \<open>The Lightning service is present and every streaming method named in
  \<open>SUBSCRIPTIONS\<close> returns a stream handle when called.\<close>

definition lightning_ready :: "zstate \<Rightarrow> bool" where
  "lightning_ready s =
     (case services s of
        None \<Rightarrow> False
      | Some lightning \<Rightarrow> list_all (\<lambda>(k, m). map_of lightning m = Some ReturnsStream) SUBSCRIPTIONS)"

text \<open>\<open>ZapGrpc.SUBSCRIPTIONS[key]\<close> for a known key.\<close>

definition method_of :: "key \<Rightarrow> string" where
  "method_of k = (case map_of SUBSCRIPTIONS k of Some m \<Rightarrow> m | None \<Rightarrow> [])"

text \<open>The keys of a list that have no active entry in the table.\<close>

definition fresh_keys :: "zstate \<Rightarrow> key list \<Rightarrow> key list" where
  "fresh_keys s ks = filter (\<lambda>k. active s k = None) ks"

text \<open>The state after lines 140 to 161 have run for a key whose method returned a stream
  handle.\<close>

definition started :: "key \<Rightarrow> zstate \<Rightarrow> zstate" where
  "started k s =
     forwardAll (method_of k)
       (logmsg (InfoStarted k)
          (set_table (assign (table s) k (Some (length (streams s))))
             (s\<lparr>streams := streams s @ [new_stream (method_of k) k]\<rparr>)))"

section \<open>Example states\<close>

text \<open>An external constructor whose transport starts in the state \<open>ready\<close> with an
  empty Lightning service, a set of options, and the instance after \<open>connect\<close> and after
  \<open>subscribe('info')\<close>.\<close>

definition example_LndGrpc :: "settings \<Rightarrow> transport" where
  "example_LndGrpc g =
     \<lparr>tstate = ''ready'', tcan = [], tsettings = g, tservices = Some [], thandlers = [],
      teardowns = 0\<rparr>"

definition example_options :: connection_options where
  "example_options =
     \<lparr>opt_id = JString ''wallet-1'', opt_type = JString ''local'',
      opt_host = JString ''localhost:10009'', opt_cert = JUndefined,
      opt_macaroon = JUndefined, opt_protoDir = JUndefined\<rparr>"

definition example_connected :: zstate where
  "example_connected = snd (connect example_options example_LndGrpc constructor)"

definition example_subscribed :: zstate where
  "example_subscribed = snd (subscribe [''info''] example_connected)"

text \<open>The connected instance once its transport has moved to the state \<open>active\<close>, from
  which it can disconnect.\<close>

definition example_active :: zstate where
  "example_active = transport_moves 0 ''active'' [''disconnect''] example_connected"

section \<open>Invariants of the instance\<close>

text \<open>All listeners attached to a stream handle.\<close>

definition listeners :: "stream \<Rightarrow> listener set" where
  "listeners st = set (on_end st) \<union> set (on_status st)"

text \<open>The key captured by the first \<open>end\<close> listener of a handle, the one \<open>subscribe\<close>
  attached when it opened the stream.\<close>

definition handle_key :: "zstate \<Rightarrow> hid \<Rightarrow> key" where
  "handle_key s h = key_of (hd (on_end (streams s ! h)))"

text \<open>
  What holds of the instance at every moment: the \<open>subscriptions\<close> member refers to the
  object of \<open>INITIAL_STATE\<close>; an active table entry holds an existing handle, opened for
  that key; every handle carries the two listeners \<open>subscribe\<close> attached to it; all
  listeners of one handle captured the same key; and a listener resolves a promise that exists.
\<close>

definition wf :: "zstate \<Rightarrow> bool" where
  "wf s \<longleftrightarrow>
     subscriptions s = INITIAL_STATE_subscriptions \<and> heap s \<noteq> [] \<and>
     (\<forall>k h. active s k = Some h \<longrightarrow> h < length (streams s) \<and> handle_key s h = k) \<and>
     (\<forall>h < length (streams s).
        on_end (streams s ! h) \<noteq> [] \<and>
        OnEndSubscribe (handle_key s h) \<in> set (on_end (streams s ! h)) \<and>
        OnStatusSubscribe (handle_key s h) \<in> set (on_status (streams s ! h)) \<and>
        (\<forall>l \<in> listeners (streams s ! h).
           key_of l = handle_key s h \<and>
           (\<forall>p. pid_of l = Some p \<longrightarrow> p < length (promises s))))"

text \<open>
  The relation between the states before and after an operation that resolves no promise:
  the promises made so far are as they were, and a listener that can resolve one of them
  was attached to the same handle before.
\<close>

definition extends :: "zstate \<Rightarrow> zstate \<Rightarrow> bool" where
  "extends s s' \<longleftrightarrow>
     length (promises s) \<le> length (promises s') \<and>
     take (length (promises s)) (promises s') = promises s \<and>
     length (streams s) \<le> length (streams s') \<and>
     (\<forall>h < length (streams s'). \<forall>l \<in> listeners (streams s' ! h). \<forall>p.
        pid_of l = Some p \<longrightarrow> p < length (promises s) \<longrightarrow>
        h < length (streams s) \<and> l \<in> listeners (streams s ! h))"

text \<open>An operation that keeps the invariant and resolves no promise.\<close>

definition good :: "zstate \<Rightarrow> zstate \<Rightarrow> bool" where
  "good s s' \<longleftrightarrow> (wf s \<longrightarrow> wf s') \<and> extends s s'"

text \<open>The state after lines 140 to 146 have run for a key whose method returned
  \<open>undefined\<close>.\<close>

definition started_undefined :: "key \<Rightarrow> zstate \<Rightarrow> zstate" where
  "started_undefined k s =
     forwardAll (method_of k)
       (logmsg (InfoStarted k) (set_table (assign (table s) k None) s))"

text \<open>The state after lines 194 to 219 have run for a key whose active entry holds
  the handle \<open>h\<close>.\<close>

definition cancelling :: "key \<Rightarrow> hid \<Rightarrow> zstate \<Rightarrow> zstate" where
  "cancelling k h s =
     s\<lparr>grpcLog := grpcLog s @ [InfoUnsubscribingFrom k],
       forwarded := (case map_of SUBSCRIPTIONS k of
                       None \<Rightarrow> forwarded s
                     | Some m \<Rightarrow> removeAll m (forwarded s)),
       promises := promises s @ [False],
       streams := (streams s)
         [h := request_cancel (add_cancel_listeners k (length (promises s)) (streams s ! h))]\<rparr>"

text \<open>A listener acts on an event: the event is the one it is registered for and,
  for a status event, the code is \<open>CANCELLED\<close>.\<close>

fun fires :: "listener \<Rightarrow> stream_event \<Rightarrow> bool" where
  "fires (OnEndSubscribe k) End = True"
| "fires (OnStatusSubscribe k) (Status c) = (c = CANCELLED)"
| "fires (OnStatusCancel k p) (Status c) = (c = CANCELLED)"
| "fires (OnEndCancel k p) End = True"
| "fires l ev = False"


text \<open>The promise \<open>p\<close> exists and only listeners of the handle \<open>h\<close>, which captured the key
  \<open>k\<close>, can resolve it.\<close>

definition tracks :: "pid \<Rightarrow> hid \<Rightarrow> key \<Rightarrow> zstate \<Rightarrow> bool" where
  "tracks p h k s \<longleftrightarrow>
     p < length (promises s) \<and>
     (\<forall>h' < length (streams s). \<forall>l \<in> listeners (streams s ! h').
        pid_of l = Some p \<longrightarrow> h' = h \<and> key_of l = k)"

text \<open>The subscribed instance after \<open>cancelSubscription('info')\<close>.\<close>

definition example_cancelling :: zstate where
  "example_cancelling = snd (cancelSubscription ''info'' example_subscribed)"

text \<open>
  A run of the connected instance: \<open>subscribeAll\<close>; the info stream reports that the node
  is synced; the cancelled info stream closes; the remote end closes the channel-graph
  stream; the application subscribes to \<open>info\<close> again; the new info stream reports that
  the node is synced.
\<close>

definition example_trace :: "action list" where
  "example_trace =
     [SubscribeAll,
      StreamEmit 2 (Data (JBool True)),
      StreamEmit 2 (Status CANCELLED),
      StreamEmit 3 End,
      Subscribe [''info''],
      StreamEmit 4 (Data (JBool True))]"

text \<open>The connected instance after \<open>subscribeAll\<close>.\<close>

definition example_all :: zstate where
  "example_all = snd (subscribeAll example_connected)"

text \<open>
  A run in which a key is subscribed again after its stream was cancelled: \<open>info\<close> is
  subscribed (handle 0), handle 0 reports the status \<open>CANCELLED\<close>, \<open>info\<close> is subscribed
  again (handle 1).
\<close>

definition example_resubscribed :: zstate where
  "example_resubscribed =
     run [Subscribe [''info''], StreamEmit 0 (Status CANCELLED), Subscribe [''info'']]
       example_connected"

section \<open>Auxiliary facts\<close>

lemma map_of_assign: "map_of (assign tbl k v) = (map_of tbl)(k \<mapsto> v)"
  by (induction tbl) (auto simp: fun_eq_iff)

lemma own_handle_assign_same: "own_handle (assign tbl k (Some h)) k = Some h"
  by (simp add: own_handle_def map_of_assign)

lemma own_handle_assign_other: "k' \<noteq> k \<Longrightarrow> own_handle (assign tbl k v) k' = own_handle tbl k'"
  by (simp add: own_handle_def map_of_assign)

lemma keys_assign: "set (keys (assign tbl k v)) = insert k (set (keys tbl))"
  by (induction tbl) (auto simp: keys_def)

lemma delete_absent: "k \<notin> set (keys tbl) \<Longrightarrow> delete k tbl = tbl"
  by (induction tbl) (auto simp: keys_def delete_def)

lemma own_handle_delete: "own_handle (delete k tbl) k' = (if k' = k then None else own_handle tbl k')"
  by (induction tbl) (auto simp: own_handle_def delete_def)

lemma keys_delete: "set (keys (delete k tbl)) = set (keys tbl) - {k}"
  by (auto simp: keys_def delete_def)

lemma distinct_uniq: "distinct (uniq xs)"
  by (induction xs) auto

lemma set_uniq: "set (uniq xs) = set xs"
  by (induction xs) auto

lemma set_intersection: "set (intersection xs ys) = set xs \<inter> set ys"
  by (auto simp: intersection_def set_uniq)

lemma distinct_intersection: "distinct (intersection xs ys)"
  by (simp add: intersection_def distinct_uniq)

lemma distinct_allSubKeys: "distinct allSubKeys"
  by (simp add: allSubKeys_def SUBSCRIPTIONS_def)

lemma subscribe_targets_set:
  "set (subscribe_targets ks) = (if ks = [] then set allSubKeys else set allSubKeys \<inter> set ks)"
  by (simp add: subscribe_targets_def set_intersection)

lemma subscribe_targets_distinct: "distinct (subscribe_targets ks)"
  by (simp add: subscribe_targets_def distinct_intersection distinct_allSubKeys)

lemma active_logmsg [simp]: "active (logmsg m s) k = active s k"
  by (simp add: active_def table_def logmsg_def)

lemma heap_ok_logmsg [simp]: "heap_ok (logmsg m s) = heap_ok s"
  by (simp add: heap_ok_def logmsg_def)

lemma lightning_ready_logmsg [simp]: "lightning_ready (logmsg m s) = lightning_ready s"
  by (simp add: lightning_ready_def logmsg_def)

lemma table_logmsg [simp]: "table (logmsg m s) = table s"
  by (simp add: table_def logmsg_def)

lemma entry_active: "active s k = Some h \<Longrightarrow> entry s k = OwnHandle h"
  by (auto simp: entry_def read_key_def active_def own_handle_def split: option.splits)

lemma entry_OwnHandle: "entry s k = OwnHandle h \<longleftrightarrow> active s k = Some h"
  by (auto simp: entry_def read_key_def active_def own_handle_def split: option.splits)

lemma entry_plain:
  "active s k = None \<Longrightarrow> k \<notin> set object_prototype_names \<Longrightarrow> entry s k = NoMember"
  by (auto simp: entry_def read_key_def active_def own_handle_def split: option.splits)

lemma entry_own_key:
  "active s k = None \<Longrightarrow> k \<in> set (keys (table s)) \<Longrightarrow> entry s k = NoMember"
  by (auto simp: entry_def read_key_def active_def own_handle_def keys_def map_of_eq_None_iff
      split: option.splits)

lemma entry_NoMember_active: "entry s k = NoMember \<Longrightarrow> active s k = None"
  by (auto simp: entry_def read_key_def active_def own_handle_def split: option.splits if_splits)

lemma entry_InheritedMember:
  "entry s k = InheritedMember \<Longrightarrow>
   active s k = None \<and> k \<in> set object_prototype_names \<and> map_of SUBSCRIPTIONS k = None"
  by (auto simp: entry_def read_key_def active_def own_handle_def SUBSCRIPTIONS_def
      object_prototype_names_def split: option.splits if_splits)

lemma known_key_plain: "k \<in> set allSubKeys \<Longrightarrow> k \<notin> set object_prototype_names"
proof -
  have "\<forall>k \<in> set allSubKeys. k \<notin> set object_prototype_names" by code_simp
  then show "k \<in> set allSubKeys \<Longrightarrow> k \<notin> set object_prototype_names" by blast
qed

lemma entry_channelgraph:
  "entry s ''channelgraph'' = NoMember \<longleftrightarrow> active s ''channelgraph'' = None"
proof -
  have "''channelgraph'' \<notin> set object_prototype_names"
    by (simp add: object_prototype_names_def)
  then show ?thesis using entry_plain entry_NoMember_active by blast
qed

lemma gate_alt:
  "gate d s =
     (if truthy d \<and> active s ''channelgraph'' = None then
        (case subscribe [''channelgraph''] s of
           (Some e, s') \<Rightarrow> (Some e, s')
         | (None, s') \<Rightarrow> (None, snd (unsubscribe [''info''] s')))
      else (None, s))"
  by (simp add: gate_def entry_channelgraph)

lemma entry_logmsg [simp]: "entry (logmsg m s) k = entry s k"
  by (simp add: entry_def table_def logmsg_def)

lemma entry_frame:
  "heap s' = heap s \<Longrightarrow> subscriptions s' = subscriptions s \<Longrightarrow> entry s' k = entry s k"
  by (simp add: entry_def table_def)

lemma subscribe_key_active:
  "active s k = Some h \<Longrightarrow> subscribe_key k s = (None, logmsg (WarnAlreadyActive k) s)"
  by (simp add: subscribe_key_def entry_active)

lemma known_method:
  "k \<in> set allSubKeys \<Longrightarrow> map_of SUBSCRIPTIONS k = Some (method_of k)"
  by (auto simp: allSubKeys_def SUBSCRIPTIONS_def method_of_def)

lemma ready_method:
  "lightning_ready s \<Longrightarrow> k \<in> set allSubKeys \<Longrightarrow>
   \<exists>lightning. services s = Some lightning \<and> map_of lightning (method_of k) = Some ReturnsStream"
  by (auto simp: lightning_ready_def allSubKeys_def SUBSCRIPTIONS_def method_of_def
      split: option.splits)

lemma subscribe_key_inactive:
  assumes "active s k = None" "lightning_ready s" "k \<in> set allSubKeys"
  shows "subscribe_key k s = (None, started k s)"
proof -
  obtain lightning where "services s = Some lightning"
    "map_of lightning (method_of k) = Some ReturnsStream"
    using ready_method[OF assms(2,3)] by blast
  moreover have "entry s k = NoMember"
    using assms(1) known_key_plain[OF assms(3)] by (rule entry_plain)
  ultimately show ?thesis
    using known_method[OF assms(3)]
    by (simp add: subscribe_key_def started_def Let_def table_def)
qed

lemma started_props:
  assumes "heap_ok s"
  shows "streams (started k s) = streams s @ [new_stream (method_of k) k]"
    and "table (started k s) = assign (table s) k (Some (length (streams s)))"
    and "services (started k s) = services s"
    and "promises (started k s) = promises s"
    and "grpcLog (started k s) = grpcLog s @ [InfoStarted k]"
    and "forwarded (started k s) = List.insert (method_of k) (forwarded s)"
    and "subscriptions (started k s) = subscriptions s"
    and "length (heap (started k s)) = length (heap s)"
  using assms
  by (simp_all add: started_def forwardAll_def logmsg_def set_table_def table_def heap_ok_def)

lemma heap_ok_started: "heap_ok s \<Longrightarrow> heap_ok (started k s)"
  by (simp add: heap_ok_def started_props)

lemma lightning_ready_started: "heap_ok s \<Longrightarrow> lightning_ready (started k s) = lightning_ready s"
  by (simp add: lightning_ready_def started_props)

lemma active_started:
  "heap_ok s \<Longrightarrow> active (started k s) k' = (if k' = k then Some (length (streams s)) else active s k')"
  by (simp add: active_def started_props own_handle_assign_same own_handle_assign_other)

lemma map_of_table_started:
  "heap_ok s \<Longrightarrow> map_of (table (started k s)) = (map_of (table s))(k \<mapsto> Some (length (streams s)))"
  by (simp add: started_props map_of_assign)

lemma forEach_subscribe_key:
  assumes "heap_ok s" "lightning_ready s" "set ks \<subseteq> set allSubKeys" "distinct ks"
  shows "\<exists>s'. forEach subscribe_key ks s = (None, s') \<and>
           heap_ok s' \<and>
           promises s' = promises s \<and>
           streams s' = streams s @ map (\<lambda>k. new_stream (method_of k) k) (fresh_keys s ks) \<and>
           grpcLog s' = grpcLog s @
             map (\<lambda>k. if active s k = None then InfoStarted k else WarnAlreadyActive k) ks \<and>
           (\<forall>k. k \<notin> set (fresh_keys s ks) \<longrightarrow> map_of (table s') k = map_of (table s) k) \<and>
           (\<forall>k \<in> set (fresh_keys s ks). \<exists>h. active s' k = Some h \<and> length (streams s) \<le> h \<and>
               h < length (streams s') \<and> streams s' ! h = new_stream (method_of k) k)"
  using assms
proof (induction ks arbitrary: s)
  case Nil
  then show ?case by (simp add: fresh_keys_def)
next
  case (Cons k ks)
  have kin: "k \<in> set allSubKeys" and knot: "k \<notin> set ks" and sub: "set ks \<subseteq> set allSubKeys"
    and dist: "distinct ks"
    using Cons.prems by auto
  show ?case
  proof (cases "active s k")
    case None
    let ?s1 = "started k s"
    have step: "subscribe_key k s = (None, ?s1)"
      using subscribe_key_inactive[OF None Cons.prems(2) kin] .
    have ok1: "heap_ok ?s1" using Cons.prems(1) by (rule heap_ok_started)
    have rd1: "lightning_ready ?s1" using Cons.prems(1,2) by (simp add: lightning_ready_started)
    have same: "fresh_keys ?s1 ks = fresh_keys s ks"
      unfolding fresh_keys_def
      by (rule filter_cong) (use knot Cons.prems(1) in \<open>auto simp: active_started\<close>)
    have fk: "fresh_keys s (k # ks) = k # fresh_keys s ks"
      using None by (simp add: fresh_keys_def)
    from Cons.IH[OF ok1 rd1 sub dist] obtain s' where
      run: "forEach subscribe_key ks ?s1 = (None, s')" and ok': "heap_ok s'"
      and pr: "promises s' = promises ?s1"
      and st: "streams s' = streams ?s1 @ map (\<lambda>k. new_stream (method_of k) k) (fresh_keys ?s1 ks)"
      and lg: "grpcLog s' = grpcLog ?s1 @
             map (\<lambda>k. if active ?s1 k = None then InfoStarted k else WarnAlreadyActive k) ks"
      and keep: "\<forall>k'. k' \<notin> set (fresh_keys ?s1 ks) \<longrightarrow> map_of (table s') k' = map_of (table ?s1) k'"
      and new: "\<forall>k' \<in> set (fresh_keys ?s1 ks). \<exists>h. active s' k' = Some h \<and> length (streams ?s1) \<le> h \<and>
               h < length (streams s') \<and> streams s' ! h = new_stream (method_of k') k'"
      by blast
    have lgmap: "map (\<lambda>k. if active ?s1 k = None then InfoStarted k else WarnAlreadyActive k) ks
        = map (\<lambda>k. if active s k = None then InfoStarted k else WarnAlreadyActive k) ks"
      by (rule map_cong) (use knot Cons.prems(1) in \<open>auto simp: active_started\<close>)
    have knf: "k \<notin> set (fresh_keys s ks)" using knot by (simp add: fresh_keys_def)
    have kact: "active s' k = Some (length (streams s))"
    proof -
      have "map_of (table s') k = map_of (table ?s1) k" using keep knf same by simp
      then have "active s' k = active ?s1 k" by (simp add: active_def own_handle_def)
      then show ?thesis using Cons.prems(1) by (simp add: active_started)
    qed
    have c1: "forEach subscribe_key (k # ks) s = (None, s')" using step run by simp
    have c3: "promises s' = promises s" using pr Cons.prems(1) by (simp add: started_props)
    have c4: "streams s' = streams s @ map (\<lambda>k. new_stream (method_of k) k) (fresh_keys s (k # ks))"
      using st same fk Cons.prems(1) by (simp add: started_props)
    have c5: "grpcLog s' = grpcLog s @
             map (\<lambda>k. if active s k = None then InfoStarted k else WarnAlreadyActive k) (k # ks)"
      using lg lgmap None Cons.prems(1) by (simp add: started_props)
    have c6: "\<forall>k'. k' \<notin> set (fresh_keys s (k # ks)) \<longrightarrow> map_of (table s') k' = map_of (table s) k'"
      using keep same fk Cons.prems(1) by (auto simp: map_of_table_started)
    have c7: "\<forall>k' \<in> set (fresh_keys s (k # ks)). \<exists>h. active s' k' = Some h \<and> length (streams s) \<le> h \<and>
               h < length (streams s') \<and> streams s' ! h = new_stream (method_of k') k'"
    proof
      fix k' assume "k' \<in> set (fresh_keys s (k # ks))"
      then consider "k' = k" | "k' \<in> set (fresh_keys s ks)" using fk by auto
      then show "\<exists>h. active s' k' = Some h \<and> length (streams s) \<le> h \<and>
               h < length (streams s') \<and> streams s' ! h = new_stream (method_of k') k'"
      proof cases
        case 1
        then show ?thesis using kact c4 fk by (simp add: nth_append)
      next
        case 2
        then obtain h where "active s' k' = Some h" "length (streams ?s1) \<le> h"
          "h < length (streams s')" "streams s' ! h = new_stream (method_of k') k'"
          using new same by auto
        then show ?thesis using Cons.prems(1) by (auto simp: started_props)
      qed
    qed
    show ?thesis using c1 ok' c3 c4 c5 c6 c7 by blast
  next
    case (Some h)
    let ?s1 = "logmsg (WarnAlreadyActive k) s"
    have step: "subscribe_key k s = (None, ?s1)"
      using subscribe_key_active[OF Some] .
    have ok1: "heap_ok ?s1" using Cons.prems(1) by simp
    have rd1: "lightning_ready ?s1" using Cons.prems(2) by simp
    have same: "fresh_keys ?s1 ks = fresh_keys s ks" by (simp add: fresh_keys_def)
    have fk: "fresh_keys s (k # ks) = fresh_keys s ks" using Some by (simp add: fresh_keys_def)
    from Cons.IH[OF ok1 rd1 sub dist] obtain s' where
      run: "forEach subscribe_key ks ?s1 = (None, s')" and ok': "heap_ok s'"
      and pr: "promises s' = promises ?s1"
      and st: "streams s' = streams ?s1 @ map (\<lambda>k. new_stream (method_of k) k) (fresh_keys ?s1 ks)"
      and lg: "grpcLog s' = grpcLog ?s1 @
             map (\<lambda>k. if active ?s1 k = None then InfoStarted k else WarnAlreadyActive k) ks"
      and keep: "\<forall>k'. k' \<notin> set (fresh_keys ?s1 ks) \<longrightarrow> map_of (table s') k' = map_of (table ?s1) k'"
      and new: "\<forall>k' \<in> set (fresh_keys ?s1 ks). \<exists>h. active s' k' = Some h \<and> length (streams ?s1) \<le> h \<and>
               h < length (streams s') \<and> streams s' ! h = new_stream (method_of k') k'"
      by blast
    have c1: "forEach subscribe_key (k # ks) s = (None, s')" using step run by simp
    have c3: "promises s' = promises s" using pr by (simp add: logmsg_def)
    have c4: "streams s' = streams s @ map (\<lambda>k. new_stream (method_of k) k) (fresh_keys s (k # ks))"
      using st same fk by (simp add: logmsg_def)
    have c5: "grpcLog s' = grpcLog s @
             map (\<lambda>k. if active s k = None then InfoStarted k else WarnAlreadyActive k) (k # ks)"
    proof -
      have "grpcLog s' = grpcLog ?s1 @
             map (\<lambda>k. if active s k = None then InfoStarted k else WarnAlreadyActive k) ks"
        using lg by simp
      then show ?thesis using Some by (simp add: logmsg_def)
    qed
    have c6: "\<forall>k'. k' \<notin> set (fresh_keys s (k # ks)) \<longrightarrow> map_of (table s') k' = map_of (table s) k'"
      using keep same fk by simp
    have c7: "\<forall>k' \<in> set (fresh_keys s (k # ks)). \<exists>h. active s' k' = Some h \<and> length (streams s) \<le> h \<and>
               h < length (streams s') \<and> streams s' ! h = new_stream (method_of k') k'"
      using new same fk by (simp add: logmsg_def)
    show ?thesis using c1 ok' c3 c4 c5 c6 c7 by blast
  qed
qed

lemmas eval_defs =
  subscribe_def subscribe_targets_def intersection_def allSubKeys_def SUBSCRIPTIONS_def
  subscribe_key_def active_def entry_def read_key_def object_prototype_names_def table_def
  own_handle_def logmsg_def set_table_def forwardAll_def
  unforwardAll_def new_stream_def lightningSubscriptions_def Let_def

lemma example_connected_eq:
  "example_connected =
     \<lparr>options = example_options, services = Some lightningSubscriptions, subscriptions = 0,
      grpc = Some 0, this_useMacaroon = JUndefined, heap = [[]],
      transports =
        [\<lparr>tstate = ''ready'', tcan = [],
          tsettings = getConnectionSettings (constructor\<lparr>options := example_options\<rparr>),
          tservices = Some lightningSubscriptions,
          thandlers = [''locked'', ''active'', ''disconnected''], teardowns = 0\<rparr>],
      streams = [], promises = [], forwarded = [], gates = 0, emitted = [], grpcLog = []\<rparr>"
  by (simp add: example_connected_def connect_def already_connected_def constructor_def
      assign_INITIAL_STATE_def INITIAL_STATE_options_def INITIAL_STATE_services_def
      INITIAL_STATE_subscriptions_def example_LndGrpc_def Let_def object_assign_def)

lemma example_subscribed_eq:
  "example_subscribed =
     example_connected
       \<lparr>heap := [[(''info'', Some 0)]],
        streams := [new_stream ''subscribeGetInfo'' ''info''],
        forwarded := [''subscribeGetInfo''],
        grpcLog := [InfoSubscribing [''info''], InfoStarted ''info'']\<rparr>"
  by (simp add: example_subscribed_def example_connected_eq eval_defs)

lemma example_active_eq:
  "example_active =
     example_connected
       \<lparr>transports :=
          [\<lparr>tstate = ''active'', tcan = [''disconnect''],
            tsettings = getConnectionSettings (constructor\<lparr>options := example_options\<rparr>),
            tservices = Some lightningSubscriptions,
            thandlers = [''locked'', ''active'', ''disconnected''], teardowns = 0\<rparr>]\<rparr>"
  by (simp add: example_active_def transport_moves_def example_connected_eq)

lemma tstate_list_update_teardowns:
  "tstate ((ts[i := (ts ! i)\<lparr>teardowns := n\<rparr>]) ! j) = tstate (ts ! j)"
  by (cases "i < length ts"; cases "i = j") (simp_all add: list_update_beyond)

lemma tstate_list_update_thandlers:
  "tstate ((ts[i := (ts ! i)\<lparr>thandlers := n\<rparr>]) ! j) = tstate (ts ! j)"
  by (cases "i < length ts"; cases "i = j") (simp_all add: list_update_beyond)

lemma removeAllListeners_fields:
  "grpc (removeAllListeners s) = grpc s"
  "this_useMacaroon (removeAllListeners s) = this_useMacaroon s"
  "gates (removeAllListeners s) = gates s"
  "heap (removeAllListeners s) = heap s"
  "streams (removeAllListeners s) = streams s"
  "promises (removeAllListeners s) = promises s"
  "forwarded (removeAllListeners s) = forwarded s"
  "options (removeAllListeners s) = options s"
  "services (removeAllListeners s) = services s"
  "subscriptions (removeAllListeners s) = subscriptions s"
  "tstate (transports (removeAllListeners s) ! j) = tstate (transports s ! j)"
  by (simp_all add: removeAllListeners_def tstate_list_update_thandlers split: option.splits)

lemma disconnect_keeps_table:
  "subscriptions s = INITIAL_STATE_subscriptions \<Longrightarrow>
   table (snd (disconnect_settled True s)) = table s"
  by (simp add: disconnect_settled_def assign_INITIAL_STATE_def table_def removeAllListeners_fields)

lemma extends_refl: "extends s s"
  by (simp add: extends_def)

lemma extends_trans:
  assumes "extends a b" "extends b c"
  shows "extends a c"
proof -
  have l1: "length (promises a) \<le> length (promises b)" and l2: "length (promises b) \<le> length (promises c)"
    and t1: "take (length (promises a)) (promises b) = promises a"
    and t2: "take (length (promises b)) (promises c) = promises b"
    and s1: "length (streams a) \<le> length (streams b)" and s2: "length (streams b) \<le> length (streams c)"
    using assms by (simp_all add: extends_def)
  have "take (length (promises a)) (promises c) =
        take (length (promises a)) (take (length (promises b)) (promises c))"
    using l1 by (simp add: min_def)
  then have t: "take (length (promises a)) (promises c) = promises a"
    using t1 t2 by simp
  have ls: "\<forall>h < length (streams c). \<forall>l \<in> listeners (streams c ! h). \<forall>p.
        pid_of l = Some p \<longrightarrow> p < length (promises a) \<longrightarrow>
        h < length (streams a) \<and> l \<in> listeners (streams a ! h)"
  proof (intro allI impI ballI)
    fix h l p
    assume h: "h < length (streams c)" and l: "l \<in> listeners (streams c ! h)"
      and p: "pid_of l = Some p" and pa: "p < length (promises a)"
    have pb: "p < length (promises b)" using pa l1 by simp
    from assms(2) h l p pb have hb: "h < length (streams b)" and lb: "l \<in> listeners (streams b ! h)"
      unfolding extends_def by blast+
    from assms(1) hb lb p pa show "h < length (streams a) \<and> l \<in> listeners (streams a ! h)"
      unfolding extends_def by blast
  qed
  show ?thesis
    unfolding extends_def using l1 l2 t s1 s2 ls by simp
qed

lemma good_refl: "good s s"
  by (simp add: good_def extends_refl)

lemma good_trans: "good a b \<Longrightarrow> good b c \<Longrightarrow> good a c"
  unfolding good_def using extends_trans by blast

lemma good_frame:
  assumes "heap s' = heap s" "streams s' = streams s" "promises s' = promises s"
    "subscriptions s' = subscriptions s"
  shows "good s s'"
  using assms
  by (simp add: good_def extends_def wf_def active_def table_def handle_key_def)

lemma good_logmsg: "good s (logmsg m s)"
  by (rule good_frame) (simp_all add: logmsg_def)

lemma good_forwardAll: "good s (forwardAll m s)"
  by (rule good_frame) (simp_all add: forwardAll_def)

lemma good_unforwardAll: "good s (unforwardAll m s)"
  by (rule good_frame) (simp_all add: unforwardAll_def)

lemma wf_heap_ok: "wf s \<Longrightarrow> heap_ok s"
  by (simp add: wf_def heap_ok_def INITIAL_STATE_subscriptions_def)

lemma listeners_new_stream [simp]:
  "listeners (new_stream m k) = {OnEndSubscribe k, OnStatusSubscribe k}"
  by (auto simp: listeners_def new_stream_def)

lemma on_end_new_stream [simp]: "on_end (new_stream m k) = [OnEndSubscribe k]"
  by (simp add: new_stream_def)

lemma on_status_new_stream [simp]: "on_status (new_stream m k) = [OnStatusSubscribe k]"
  by (simp add: new_stream_def)

lemma good_started: "good s (started k s)"
proof -
  have ext: "extends s (started k s)"
    by (auto simp: extends_def started_def forwardAll_def logmsg_def set_table_def nth_append)
  have "wf (started k s)" if w: "wf s"
  proof -
    have ok: "heap_ok s" using w by (rule wf_heap_ok)
    let ?s' = "started k s"
    have st: "streams ?s' = streams s @ [new_stream (method_of k) k]"
      and pr: "promises ?s' = promises s"
      and su: "subscriptions ?s' = subscriptions s"
      and hp: "heap ?s' \<noteq> []"
      using ok started_props[OF ok, of k] by (auto simp: heap_ok_def)
    have hk_old: "\<And>h. h < length (streams s) \<Longrightarrow> handle_key ?s' h = handle_key s h"
      by (simp add: handle_key_def st nth_append)
    have hk_new: "handle_key ?s' (length (streams s)) = k"
      by (simp add: handle_key_def st)
    have a: "\<forall>k' h. active ?s' k' = Some h \<longrightarrow> h < length (streams ?s') \<and> handle_key ?s' h = k'"
    proof (intro allI impI)
      fix k' h assume act: "active ?s' k' = Some h"
      show "h < length (streams ?s') \<and> handle_key ?s' h = k'"
      proof (cases "k' = k")
        case True
        then have "h = length (streams s)" using act ok by (simp add: active_started)
        then show ?thesis using True hk_new st by simp
      next
        case False
        then have "active s k' = Some h" using act ok by (simp add: active_started)
        then have "h < length (streams s) \<and> handle_key s h = k'" using w by (simp add: wf_def)
        then show ?thesis using hk_old st by simp
      qed
    qed
    have b: "\<forall>h < length (streams ?s').
        on_end (streams ?s' ! h) \<noteq> [] \<and>
        OnEndSubscribe (handle_key ?s' h) \<in> set (on_end (streams ?s' ! h)) \<and>
        OnStatusSubscribe (handle_key ?s' h) \<in> set (on_status (streams ?s' ! h)) \<and>
        (\<forall>l \<in> listeners (streams ?s' ! h).
           key_of l = handle_key ?s' h \<and>
           (\<forall>p. pid_of l = Some p \<longrightarrow> p < length (promises ?s')))"
    proof (intro allI impI)
      fix h assume h: "h < length (streams ?s')"
      show "on_end (streams ?s' ! h) \<noteq> [] \<and>
        OnEndSubscribe (handle_key ?s' h) \<in> set (on_end (streams ?s' ! h)) \<and>
        OnStatusSubscribe (handle_key ?s' h) \<in> set (on_status (streams ?s' ! h)) \<and>
        (\<forall>l \<in> listeners (streams ?s' ! h).
           key_of l = handle_key ?s' h \<and>
           (\<forall>p. pid_of l = Some p \<longrightarrow> p < length (promises ?s')))"
      proof (cases "h < length (streams s)")
        case True
        then have "streams ?s' ! h = streams s ! h" by (simp add: st nth_append)
        then show ?thesis using True w hk_old[OF True] pr by (simp add: wf_def)
      next
        case False
        then have hh: "h = length (streams s)" using h st by simp
        then have "streams ?s' ! h = new_stream (method_of k) k" by (simp add: st)
        then show ?thesis using hk_new hh by auto
      qed
    qed
    show ?thesis
      unfolding wf_def using w su hp a b by (simp add: wf_def)
  qed
  then show ?thesis using ext by (simp add: good_def)
qed

lemma active_set_table:
  "heap_ok s \<Longrightarrow> active (set_table tbl s) k = own_handle tbl k"
  by (simp add: active_def table_def set_table_def heap_ok_def)

lemma own_handle_assign_None:
  "own_handle (assign tbl k None) k' = (if k' = k then None else own_handle tbl k')"
  by (simp add: own_handle_def map_of_assign)

lemma good_started_undefined: "good s (started_undefined k s)"
proof -
  let ?s' = "started_undefined k s"
  have st: "streams ?s' = streams s" and pr: "promises ?s' = promises s"
    and su: "subscriptions ?s' = subscriptions s" and hl: "length (heap ?s') = length (heap s)"
    by (simp_all add: started_undefined_def forwardAll_def logmsg_def set_table_def)
  have ext: "extends s ?s'" by (simp add: extends_def st pr)
  have "wf ?s'" if w: "wf s"
  proof -
    have ok: "heap_ok s" using w by (rule wf_heap_ok)
    have act: "\<And>k'. active ?s' k' = (if k' = k then None else active s k')"
      using ok
      by (simp add: started_undefined_def forwardAll_def logmsg_def active_def table_def
          set_table_def heap_ok_def own_handle_assign_None)
    have hk: "\<And>h. handle_key ?s' h = handle_key s h" by (simp add: handle_key_def st)
    show ?thesis
      using w hl unfolding wf_def act hk st pr su by auto
  qed
  then show ?thesis using ext by (simp add: good_def)
qed

lemma good_delete_key: "good s (delete_key k s)"
proof -
  let ?s' = "delete_key k s"
  have st: "streams ?s' = streams s" and pr: "promises ?s' = promises s"
    and su: "subscriptions ?s' = subscriptions s" and hl: "length (heap ?s') = length (heap s)"
    by (simp_all add: delete_key_def set_table_def)
  have ext: "extends s ?s'" by (simp add: extends_def st pr)
  have "wf ?s'" if w: "wf s"
  proof -
    have ok: "heap_ok s" using w by (rule wf_heap_ok)
    have act: "\<And>k'. active ?s' k' = (if k' = k then None else active s k')"
      using ok by (simp add: delete_key_def active_set_table) (simp add: active_def own_handle_delete)
    have hk: "\<And>h. handle_key ?s' h = handle_key s h" by (simp add: handle_key_def st)
    show ?thesis
      using w hl unfolding wf_def act hk st pr su by auto
  qed
  then show ?thesis using ext by (simp add: good_def)
qed

lemma wf_resolve: "wf s \<Longrightarrow> wf (resolve p s)"
  by (simp add: wf_def resolve_def active_def table_def handle_key_def)

lemma listeners_cancel:
  "listeners (request_cancel (add_cancel_listeners k p st)) =
     listeners st \<union> {OnStatusCancel k p, OnEndCancel k p}"
  by (auto simp: listeners_def request_cancel_def add_cancel_listeners_def)

lemma on_end_cancel:
  "on_end (request_cancel (add_cancel_listeners k p st)) = on_end st @ [OnEndCancel k p]"
  by (simp add: request_cancel_def add_cancel_listeners_def)

lemma on_status_cancel:
  "on_status (request_cancel (add_cancel_listeners k p st)) = on_status st @ [OnStatusCancel k p]"
  by (simp add: request_cancel_def add_cancel_listeners_def)

lemma streams_cancelling:
  "streams (cancelling k h s) =
     (streams s)[h := request_cancel (add_cancel_listeners k (length (promises s)) (streams s ! h))]"
  and promises_cancelling: "promises (cancelling k h s) = promises s @ [False]"
  and heap_cancelling: "heap (cancelling k h s) = heap s"
  and subscriptions_cancelling: "subscriptions (cancelling k h s) = subscriptions s"
  by (simp_all add: cancelling_def)

lemma active_cancelling [simp]: "active (cancelling k h s) k' = active s k'"
  by (simp add: active_def table_def cancelling_def)

lemma good_cancelling:
  assumes "active s k = Some h"
  shows "good s (cancelling k h s)"
proof -
  let ?s' = "cancelling k h s"
  let ?p = "length (promises s)"
  have nth: "\<And>h'. h' < length (streams s) \<Longrightarrow>
      listeners (streams ?s' ! h') =
        (if h' = h then listeners (streams s ! h') \<union> {OnStatusCancel k ?p, OnEndCancel k ?p}
         else listeners (streams s ! h'))"
    using assms by (cases "h < length (streams s)")
      (auto simp: streams_cancelling nth_list_update listeners_cancel list_update_beyond)
  have len: "length (streams ?s') = length (streams s)" by (simp add: streams_cancelling)
  have ext: "extends s ?s'"
    unfolding extends_def using nth len by (auto simp: promises_cancelling)
  have "wf ?s'" if w: "wf s"
  proof -
    have hv: "h < length (streams s)" and hk: "handle_key s h = k"
      using w assms by (auto simp: wf_def)
    have ne: "on_end (streams s ! h) \<noteq> []" using w hv by (simp add: wf_def)
    have hk': "handle_key ?s' h' = handle_key s h'" if "h' < length (streams s)" for h'
    proof (cases "h' = h")
      case True
      then show ?thesis
        using ne hv by (simp add: handle_key_def streams_cancelling on_end_cancel)
    next
      case False
      then show ?thesis
        by (simp add: handle_key_def streams_cancelling)
    qed
    have one: "on_end (streams ?s' ! h') \<noteq> []" if "h' < length (streams s)" for h'
    proof (cases "h' = h")
      case True
      then show ?thesis using hv by (simp add: streams_cancelling on_end_cancel)
    next
      case False
      then show ?thesis using w that by (simp add: streams_cancelling wf_def)
    qed
    have two: "OnEndSubscribe (handle_key s h') \<in> set (on_end (streams ?s' ! h')) \<and>
        OnStatusSubscribe (handle_key s h') \<in> set (on_status (streams ?s' ! h'))"
      if "h' < length (streams s)" for h'
    proof -
      have "OnEndSubscribe (handle_key s h') \<in> set (on_end (streams s ! h')) \<and>
        OnStatusSubscribe (handle_key s h') \<in> set (on_status (streams s ! h'))"
        using w that by (simp add: wf_def)
      then show ?thesis
        using hv by (cases "h' = h")
          (simp_all add: streams_cancelling on_end_cancel on_status_cancel)
    qed
    have b: "\<forall>h' < length (streams ?s').
        on_end (streams ?s' ! h') \<noteq> [] \<and>
        OnEndSubscribe (handle_key ?s' h') \<in> set (on_end (streams ?s' ! h')) \<and>
        OnStatusSubscribe (handle_key ?s' h') \<in> set (on_status (streams ?s' ! h')) \<and>
        (\<forall>l \<in> listeners (streams ?s' ! h').
           key_of l = handle_key ?s' h' \<and>
           (\<forall>p. pid_of l = Some p \<longrightarrow> p < length (promises ?s')))"
    proof (intro allI impI)
      fix h' assume "h' < length (streams ?s')"
      then have h': "h' < length (streams s)" using len by simp
      have old: "\<forall>l \<in> listeners (streams s ! h').
           key_of l = handle_key s h' \<and> (\<forall>p. pid_of l = Some p \<longrightarrow> p < length (promises s))"
        using w h' by (simp add: wf_def)
      have rest: "\<forall>l \<in> listeners (streams ?s' ! h').
           key_of l = handle_key s h' \<and>
           (\<forall>p. pid_of l = Some p \<longrightarrow> p < length (promises s @ [False]))"
        using old hk unfolding nth[OF h'] by (auto simp: less_Suc_eq)
      show "on_end (streams ?s' ! h') \<noteq> [] \<and>
        OnEndSubscribe (handle_key ?s' h') \<in> set (on_end (streams ?s' ! h')) \<and>
        OnStatusSubscribe (handle_key ?s' h') \<in> set (on_status (streams ?s' ! h')) \<and>
        (\<forall>l \<in> listeners (streams ?s' ! h').
           key_of l = handle_key ?s' h' \<and>
           (\<forall>p. pid_of l = Some p \<longrightarrow> p < length (promises ?s')))"
        using one[OF h'] two[OF h'] rest unfolding hk'[OF h'] promises_cancelling
        by blast
    qed
    have a: "\<forall>k' h'. active ?s' k' = Some h' \<longrightarrow> h' < length (streams ?s') \<and> handle_key ?s' h' = k'"
      using w hk' len by (auto simp: wf_def)
    show ?thesis
      unfolding wf_def using w a b by (simp add: wf_def heap_cancelling subscriptions_cancelling)
  qed
  then show ?thesis using ext by (simp add: good_def)
qed

lemma cancelSubscription_active:
  assumes "active s k = Some h"
  shows "cancelSubscription k s = (Pending (length (promises s)), cancelling k h s)"
proof (cases "h < length (streams s)")
  case True
  then show ?thesis
    using entry_active[OF assms]
    by (simp add: cancelSubscription_def cancelling_def Let_def logmsg_def unforwardAll_def
        split: option.splits)
next
  case False
  then show ?thesis
    using entry_active[OF assms]
    by (simp add: cancelSubscription_def cancelling_def Let_def logmsg_def unforwardAll_def
        list_update_beyond split: option.splits)
qed

lemma cancelSubscription_inactive_eq:
  "entry s k = NoMember \<Longrightarrow> cancelSubscription k s = (Fulfilled, logmsg (WarnNotActive k) s)"
  by (simp add: cancelSubscription_def)

lemma cancelSubscription_inherited:
  assumes "entry s k = InheritedMember"
  shows "cancelSubscription k s = (Rejected TypeError, logmsg (InfoUnsubscribingFrom k) s)"
  using assms entry_InheritedMember[OF assms]
  by (simp add: cancelSubscription_def Let_def)

lemma cancelSubscription_cases:
  "(entry s k = NoMember \<and>
      cancelSubscription k s = (Fulfilled, logmsg (WarnNotActive k) s)) \<or>
   (entry s k = InheritedMember \<and>
      cancelSubscription k s = (Rejected TypeError, logmsg (InfoUnsubscribingFrom k) s)) \<or>
   (\<exists>h. entry s k = OwnHandle h \<and> active s k = Some h \<and>
      cancelSubscription k s = (Pending (length (promises s)), cancelling k h s))"
proof (cases "entry s k")
  case NoMember
  then show ?thesis by (simp add: cancelSubscription_inactive_eq)
next
  case (OwnHandle h)
  then have "active s k = Some h" by (simp add: entry_OwnHandle)
  then show ?thesis using OwnHandle by (simp add: cancelSubscription_active)
next
  case InheritedMember
  then show ?thesis by (simp add: cancelSubscription_inherited)
qed

lemma good_cancelSubscription: "good s (snd (cancelSubscription k s))"
  using cancelSubscription_cases[of s k]
  by (auto simp: good_logmsg good_cancelling)

lemma good_cancel_each: "good s (snd (cancel_each ks s))"
proof (induction ks arbitrary: s)
  case Nil
  show ?case by (simp add: good_refl)
next
  case (Cons k ks)
  obtain c s1 where c: "cancelSubscription k s = (c, s1)" by (cases "cancelSubscription k s")
  obtain cs s2 where cs: "cancel_each ks s1 = (cs, s2)" by (cases "cancel_each ks s1")
  have "good s s1" using good_cancelSubscription[of s k] c by simp
  moreover have "good s1 s2" using Cons.IH[of s1] cs by simp
  ultimately show ?case using c cs by (simp add: good_trans[of s s1 s2])
qed

lemma good_unsubscribe: "good s (snd (unsubscribe ks s))"
proof (cases "unsubscribe_targets ks s = []")
  case True
  then show ?thesis by (simp add: unsubscribe_def good_refl)
next
  case False
  let ?ts = "unsubscribe_targets ks s"
  have "good s (logmsg (InfoUnsubscribing ?ts) s)" by (rule good_logmsg)
  moreover have "good (logmsg (InfoUnsubscribing ?ts) s)
      (snd (cancel_each ?ts (logmsg (InfoUnsubscribing ?ts) s)))"
    by (rule good_cancel_each)
  ultimately show ?thesis
    using False by (simp add: unsubscribe_def Let_def good_trans[of s "logmsg (InfoUnsubscribing ?ts) s"])
qed

lemma method_of_eq: "map_of SUBSCRIPTIONS k = Some m \<Longrightarrow> method_of k = m"
  by (simp add: method_of_def)

lemma subscribe_key_cases:
  "snd (subscribe_key k s) = s \<or>
   snd (subscribe_key k s) = logmsg (WarnAlreadyActive k) s \<or>
   snd (subscribe_key k s) = started k s \<or>
   snd (subscribe_key k s) = started_undefined k s"
  by (auto simp: subscribe_key_def started_def started_undefined_def Let_def method_of_eq
      table_def split: option.splits call_result.splits member.splits)

lemma good_subscribe_key: "good s (snd (subscribe_key k s))"
  using subscribe_key_cases[of k s]
  by (auto simp: good_refl good_logmsg good_started good_started_undefined)

lemma good_forEach_subscribe_key: "good s (snd (forEach subscribe_key ks s))"
proof (induction ks arbitrary: s)
  case Nil
  show ?case by (simp add: good_refl)
next
  case (Cons k ks)
  obtain r s1 where r: "subscribe_key k s = (r, s1)" by (cases "subscribe_key k s")
  have g1: "good s s1" using good_subscribe_key[of s k] r by simp
  show ?case
  proof (cases r)
    case None
    have "good s1 (snd (forEach subscribe_key ks s1))" by (rule Cons.IH)
    then show ?thesis using r None g1 by (simp add: good_trans[of s s1])
  next
    case (Some e)
    then show ?thesis using r g1 by simp
  qed
qed

lemma good_subscribe: "good s (snd (subscribe ks s))"
proof (cases "subscribe_targets ks = []")
  case True
  then show ?thesis by (simp add: subscribe_def good_refl)
next
  case False
  let ?ts = "subscribe_targets ks"
  have "good s (logmsg (InfoSubscribing ?ts) s)" by (rule good_logmsg)
  moreover have "good (logmsg (InfoSubscribing ?ts) s)
      (snd (forEach subscribe_key ?ts (logmsg (InfoSubscribing ?ts) s)))"
    by (rule good_forEach_subscribe_key)
  ultimately show ?thesis
    using False by (simp add: subscribe_def Let_def good_trans[of s "logmsg (InfoSubscribing ?ts) s"])
qed

lemma good_gate: "good s (snd (gate d s))"
proof (cases "truthy d \<and> active s ''channelgraph'' = None")
  case False
  then show ?thesis by (auto simp: gate_alt good_refl)
next
  case True
  obtain r s1 where r: "subscribe [''channelgraph''] s = (r, s1)"
    by (cases "subscribe [''channelgraph''] s")
  have g1: "good s s1" using good_subscribe[of s "[''channelgraph'']"] r by simp
  have g2: "good s1 (snd (unsubscribe [''info''] s1))" by (rule good_unsubscribe)
  show ?thesis
    using True r g1 good_trans[OF g1 g2] by (cases r) (simp_all add: gate_alt)
qed

lemma good_run_gates: "good s (snd (run_gates n d s))"
proof (induction n arbitrary: s)
  case 0
  show ?case by (simp add: good_refl)
next
  case (Suc n)
  obtain r s1 where r: "gate d s = (r, s1)" by (cases "gate d s")
  have g1: "good s s1" using good_gate[of s d] r by simp
  show ?case
  proof (cases r)
    case None
    have "good s1 (snd (run_gates n d s1))" by (rule Suc.IH)
    then show ?thesis using r None g1 by (simp add: good_trans[of s s1])
  next
    case (Some e)
    then show ?thesis using r g1 by simp
  qed
qed

lemma good_bus_emit: "good s (snd (bus_emit name d s))"
  by (simp add: bus_emit_def good_run_gates good_refl)

lemma good_subscribeAll: "good s (snd (subscribeAll s))"
proof -
  let ?ks = "[''invoices'', ''transactions'', ''info'']"
  obtain r s1 where r: "subscribe ?ks s = (r, s1)" by (cases "subscribe ?ks s")
  have g1: "good s s1" using good_subscribe[of s ?ks] r by simp
  have g2: "good s1 (s1\<lparr>gates := Suc (gates s1)\<rparr>)" by (rule good_frame) simp_all
  show ?thesis
    using r g1 good_trans[OF g1 g2] by (cases r) (simp_all add: subscribeAll_def)
qed

lemma run_listener_not_fires: "\<not> fires l ev \<Longrightarrow> run_listener l ev s = s"
  by (cases l; cases ev) simp_all

lemma fires_terminating: "fires l ev \<Longrightarrow> terminating ev"
  by (cases l; cases ev) simp_all

lemma run_listener_frame:
  "streams (run_listener l ev s) = streams s"
  "length (promises (run_listener l ev s)) = length (promises s)"
  "subscriptions (run_listener l ev s) = subscriptions s"
  "length (heap (run_listener l ev s)) = length (heap s)"
  by (cases l; cases ev; simp add: delete_key_def set_table_def logmsg_def resolve_def)+

lemma wf_logmsg: "wf s \<Longrightarrow> wf (logmsg m s)"
  using good_logmsg[of s m] by (simp add: good_def)

lemma wf_delete_key: "wf s \<Longrightarrow> wf (delete_key k s)"
  using good_delete_key[of s k] by (simp add: good_def)

lemma wf_run_listener: "wf s \<Longrightarrow> wf (run_listener l ev s)"
  by (cases l; cases ev) (simp_all add: wf_logmsg wf_delete_key wf_resolve)

lemma run_listeners_frame:
  "streams (run_listeners ls ev s) = streams s"
  "length (promises (run_listeners ls ev s)) = length (promises s)"
  "subscriptions (run_listeners ls ev s) = subscriptions s"
  "length (heap (run_listeners ls ev s)) = length (heap s)"
  by (induction ls arbitrary: s) (simp_all add: run_listener_frame)

lemma wf_run_listeners: "wf s \<Longrightarrow> wf (run_listeners ls ev s)"
  by (induction ls arbitrary: s) (simp_all add: wf_run_listener)

lemma heap_delete_key_absent:
  "k \<notin> set (keys (table s)) \<Longrightarrow> heap (delete_key k s) = heap s"
  by (simp add: delete_key_def set_table_def delete_absent table_def)

lemma run_listener_absent:
  assumes "key_of l \<notin> set (keys (table s))"
  shows "heap (run_listener l ev s) = heap s"
  using assms
  by (cases l; cases ev)
    (simp_all add: resolve_def logmsg_def heap_delete_key_absent table_def delete_key_def
      set_table_def delete_absent)

lemma run_listeners_absent:
  assumes "\<forall>l \<in> set ls. key_of l \<notin> set (keys (table s))"
  shows "heap (run_listeners ls ev s) = heap s"
  using assms
proof (induction ls arbitrary: s)
  case Nil
  show ?case by simp
next
  case (Cons l ls)
  have h1: "heap (run_listener l ev s) = heap s"
    using Cons.prems by (simp add: run_listener_absent)
  then have t1: "table (run_listener l ev s) = table s"
    by (simp add: table_def run_listener_frame)
  have "heap (run_listeners ls ev (run_listener l ev s)) = heap (run_listener l ev s)"
    by (rule Cons.IH) (use Cons.prems t1 in simp)
  then show ?case using h1 by simp
qed

lemma keys_delete_key:
  "heap_ok s \<Longrightarrow> set (keys (table (delete_key k s))) = set (keys (table s)) - {k}"
  by (simp add: delete_key_def table_def set_table_def heap_ok_def keys_delete)

lemma heap_ok_run_listener: "heap_ok (run_listener l ev s) = heap_ok s"
  by (simp add: heap_ok_def run_listener_frame)

lemma keys_run_listener:
  assumes "heap_ok s"
  shows "set (keys (table (run_listener l ev s))) =
         (if fires l ev then set (keys (table s)) - {key_of l} else set (keys (table s)))"
proof (cases "fires l ev")
  case False
  then show ?thesis by (simp add: run_listener_not_fires)
next
  case True
  have rs: "\<And>p s. table (resolve p s) = table s" by (simp add: table_def resolve_def)
  have dl: "\<And>m k. table (delete_key k (logmsg m s)) = table (delete_key k s)"
    by (simp add: table_def delete_key_def set_table_def logmsg_def)
  show ?thesis
    using True keys_delete_key[OF assms]
    by (cases l; cases ev) (simp_all add: rs dl)
qed

lemma keys_run_listeners:
  assumes "heap_ok s"
  shows "set (keys (table (run_listeners ls ev s))) =
         set (keys (table s)) - key_of ` {l \<in> set ls. fires l ev}"
  using assms
proof (induction ls arbitrary: s)
  case Nil
  show ?case by simp
next
  case (Cons l ls)
  have ok1: "heap_ok (run_listener l ev s)" using Cons.prems by (simp add: heap_ok_run_listener)
  show ?case
    using Cons.IH[OF ok1] keys_run_listener[OF Cons.prems, of l ev] by auto
qed

lemma promises_run_listener:
  "promises (run_listener l ev s) =
     (if fires l ev then (case pid_of l of None \<Rightarrow> promises s | Some p \<Rightarrow> (promises s)[p := True])
      else promises s)"
  by (cases l; cases ev) (simp_all add: resolve_def logmsg_def delete_key_def set_table_def)

lemma promises_run_listeners:
  "q < length (promises s) \<Longrightarrow>
   promises (run_listeners ls ev s) ! q =
     (promises s ! q \<or> (\<exists>l \<in> set ls. fires l ev \<and> pid_of l = Some q))"
proof (induction ls arbitrary: s)
  case Nil
  show ?case by simp
next
  case (Cons l ls)
  let ?s1 = "run_listener l ev s"
  have q1: "q < length (promises ?s1)" using Cons.prems by (simp add: run_listener_frame)
  have one: "promises ?s1 ! q = (promises s ! q \<or> (fires l ev \<and> pid_of l = Some q))"
  proof (cases "fires l ev")
    case False
    then show ?thesis by (simp add: run_listener_not_fires)
  next
    case True
    show ?thesis
    proof (cases "pid_of l")
      case None
      then show ?thesis using True by (simp add: promises_run_listener)
    next
      case (Some p)
      then show ?thesis
        using True Cons.prems
        by (cases "p = q") (simp_all add: promises_run_listener)
    qed
  qed
  show ?case
    using Cons.IH[OF q1] one by auto
qed

lemma run_listeners_idle:
  "\<not> terminating ev \<Longrightarrow> run_listeners ls ev s = s"
proof (induction ls arbitrary: s)
  case Nil
  show ?case by simp
next
  case (Cons l ls)
  have "\<not> fires l ev" using Cons.prems fires_terminating by blast
  then show ?case using Cons by (simp add: run_listener_not_fires)
qed

lemma good_assign_INITIAL_STATE: "good s (assign_INITIAL_STATE s)"
  by (auto simp: good_def extends_def wf_def assign_INITIAL_STATE_def active_def table_def
      handle_key_def)

lemma good_removeAllListeners: "good s (removeAllListeners s)"
  by (rule good_frame) (simp_all add: removeAllListeners_fields)

lemma good_connect: "good s (snd (connect opts LndGrpc s))"
  by (rule good_frame) (simp_all add: connect_def Let_def split: option.splits)

lemma good_disconnect: "good s (snd (disconnect s))"
proof -
  have 1: "good s (assign_INITIAL_STATE s)" by (rule good_assign_INITIAL_STATE)
  have 2: "good s (assign_INITIAL_STATE (removeAllListeners s))"
    using good_trans[OF good_removeAllListeners good_assign_INITIAL_STATE] .
  have 3: "\<And>i. good s (s\<lparr>transports := (transports s)
      [i := (transports s ! i)\<lparr>teardowns := Suc (teardowns (transports s ! i))\<rparr>]\<rparr>)"
    by (rule good_frame) simp_all
  show ?thesis
    using 1 2 3 by (simp add: disconnect_def split: option.splits)
qed

lemma good_disconnect_settled: "good s (snd (disconnect_settled b s))"
  using good_trans[OF good_removeAllListeners good_assign_INITIAL_STATE]
  by (simp add: disconnect_settled_def good_refl)

lemma good_transport_moves: "good s (transport_moves i st can s)"
  by (rule good_frame) (simp_all add: transport_moves_def)

lemma good_transport_emit: "good s (snd (transport_emit i name s))"
proof -
  have 1: "good s (s\<lparr>emitted := emitted s @ [GRPC_WALLET_UNLOCKER_SERVICE_ACTIVE]\<rparr>)"
    by (rule good_frame) simp_all
  have 2: "good s (s\<lparr>emitted := emitted s @ [GRPC_LIGHTNING_SERVICE_ACTIVE]\<rparr>)"
    by (rule good_frame) simp_all
  have 3: "good s (snd (subscribeAll (s\<lparr>emitted := emitted s @ [GRPC_LIGHTNING_SERVICE_ACTIVE]\<rparr>)))"
    using good_trans[OF 2 good_subscribeAll] .
  show ?thesis
    using 1 3 by (simp add: transport_emit_def good_refl good_unsubscribe)
qed

lemma good_stream_emit:
  "\<not> terminating ev \<Longrightarrow> good s (snd (stream_emit h ev s))"
  by (cases ev) (simp_all add: stream_emit_def good_refl good_bus_emit run_listeners_idle)

lemma wf_stream_emit: "wf s \<Longrightarrow> wf (snd (stream_emit h ev s))"
proof (cases "terminating ev")
  case False
  assume "wf s"
  then show ?thesis using good_stream_emit[OF False, of s h] by (simp add: good_def)
next
  case True
  assume "wf s"
  then show ?thesis using True
    by (cases ev) (simp_all add: stream_emit_def wf_run_listeners)
qed

lemma good_step:
  "\<not> (\<exists>h ev. a = StreamEmit h ev \<and> terminating ev) \<Longrightarrow> good s (step a s)"
  by (cases a)
    (simp_all add: good_connect good_disconnect good_disconnect_settled good_transport_moves
      good_transport_emit good_stream_emit good_subscribe good_subscribeAll good_unsubscribe
      good_cancelSubscription)

lemma wf_step: "wf s \<Longrightarrow> wf (step a s)"
proof (cases "\<exists>h ev. a = StreamEmit h ev \<and> terminating ev")
  case True
  assume "wf s"
  then show ?thesis using True by (auto simp: wf_stream_emit)
next
  case False
  assume "wf s"
  then show ?thesis using good_step[OF False, of s] by (simp add: good_def)
qed

lemma wf_run: "wf s \<Longrightarrow> wf (run as s)"
  by (induction as arbitrary: s) (simp_all add: wf_step)

lemma wf_constructor: "wf constructor"
  by (simp add: wf_def constructor_def assign_INITIAL_STATE_def active_def table_def own_handle_def
      INITIAL_STATE_subscriptions_def)

lemma cancelSubscription_effect:
  "heap (snd (cancelSubscription k s)) = heap s"
  "subscriptions (snd (cancelSubscription k s)) = subscriptions s"
  "length (streams (snd (cancelSubscription k s))) = length (streams s)"
  "cancels (streams s ! h) \<le> cancels (streams (snd (cancelSubscription k s)) ! h)"
  "grpcLog (snd (cancelSubscription k s)) =
     grpcLog s @ [if entry s k = NoMember then WarnNotActive k else InfoUnsubscribingFrom k]"
proof -
  show "heap (snd (cancelSubscription k s)) = heap s"
    using cancelSubscription_cases[of s k] by (auto simp: logmsg_def cancelling_def)
  show "subscriptions (snd (cancelSubscription k s)) = subscriptions s"
    using cancelSubscription_cases[of s k] by (auto simp: logmsg_def cancelling_def)
  show "length (streams (snd (cancelSubscription k s))) = length (streams s)"
    using cancelSubscription_cases[of s k] by (auto simp: logmsg_def cancelling_def)
  show "grpcLog (snd (cancelSubscription k s)) =
     grpcLog s @ [if entry s k = NoMember then WarnNotActive k else InfoUnsubscribingFrom k]"
    using cancelSubscription_cases[of s k] by (auto simp: logmsg_def cancelling_def)
  show "cancels (streams s ! h) \<le> cancels (streams (snd (cancelSubscription k s)) ! h)"
  proof (cases "active s k")
    case None
    then show ?thesis
      using cancelSubscription_cases[of s k] by (auto simp: logmsg_def)
  next
    case (Some h')
    show ?thesis
    proof (cases "h' < length (streams s) \<and> h' = h")
      case True
      then show ?thesis
        using Some
        by (simp add: cancelSubscription_active streams_cancelling request_cancel_def
            add_cancel_listeners_def)
    next
      case False
      then show ?thesis
        using Some
        by (cases "h' < length (streams s)")
          (auto simp: cancelSubscription_active streams_cancelling list_update_beyond)
    qed
  qed
qed

lemma cancelSubscription_requests_cancel:
  assumes "active s k = Some h" "h < length (streams s)"
  shows "cancels (streams (snd (cancelSubscription k s)) ! h) = Suc (cancels (streams s ! h))"
  using assms
  by (simp add: cancelSubscription_active streams_cancelling request_cancel_def
      add_cancel_listeners_def)

lemma active_cancelSubscription [simp]:
  "active (snd (cancelSubscription k s)) k' = active s k'"
  by (simp add: active_def table_def cancelSubscription_effect)

lemma entry_cancelSubscription [simp]:
  "entry (snd (cancelSubscription k s)) k' = entry s k'"
  by (rule entry_frame) (rule cancelSubscription_effect)+

lemma cancel_each_effect:
  "heap (snd (cancel_each ks s)) = heap s \<and>
   subscriptions (snd (cancel_each ks s)) = subscriptions s \<and>
   length (streams (snd (cancel_each ks s))) = length (streams s) \<and>
   length (fst (cancel_each ks s)) = length ks \<and>
   (\<forall>h. cancels (streams s ! h) \<le> cancels (streams (snd (cancel_each ks s)) ! h)) \<and>
   grpcLog (snd (cancel_each ks s)) =
     grpcLog s @ map (\<lambda>k. if entry s k = NoMember then WarnNotActive k else InfoUnsubscribingFrom k) ks \<and>
   (\<forall>k \<in> set ks. \<forall>h. active s k = Some h \<longrightarrow> h < length (streams s) \<longrightarrow>
      cancels (streams s ! h) < cancels (streams (snd (cancel_each ks s)) ! h))"
proof (induction ks arbitrary: s)
  case Nil
  show ?case by simp
next
  case (Cons k ks)
  obtain c s1 where c: "cancelSubscription k s = (c, s1)" by (cases "cancelSubscription k s")
  obtain cs s2 where cs: "cancel_each ks s1 = (cs, s2)" by (cases "cancel_each ks s1")
  have s1: "s1 = snd (cancelSubscription k s)" using c by simp
  have e1: "heap s1 = heap s" "subscriptions s1 = subscriptions s"
    "length (streams s1) = length (streams s)"
    "\<And>h. cancels (streams s ! h) \<le> cancels (streams s1 ! h)"
    "grpcLog s1 = grpcLog s @ [if entry s k = NoMember then WarnNotActive k else InfoUnsubscribingFrom k]"
    unfolding s1 by (rule cancelSubscription_effect)+
  have a1: "\<And>k'. active s1 k' = active s k'" unfolding s1 by simp
  have n1: "\<And>k'. entry s1 k' = entry s k'" unfolding s1 by simp
  from Cons.IH[of s1] cs have
    i1: "heap s2 = heap s1" "subscriptions s2 = subscriptions s1"
      "length (streams s2) = length (streams s1)" "length cs = length ks"
    and i2: "\<And>h. cancels (streams s1 ! h) \<le> cancels (streams s2 ! h)"
    and i3: "grpcLog s2 = grpcLog s1 @
        map (\<lambda>k. if entry s1 k = NoMember then WarnNotActive k else InfoUnsubscribingFrom k) ks"
    and i4: "\<forall>k \<in> set ks. \<forall>h. active s1 k = Some h \<longrightarrow> h < length (streams s1) \<longrightarrow>
      cancels (streams s1 ! h) < cancels (streams s2 ! h)"
    by simp_all
  have r: "cancel_each (k # ks) s = (c # cs, s2)" using c cs by simp
  have mono: "\<forall>h. cancels (streams s ! h) \<le> cancels (streams s2 ! h)"
    using e1(4) i2 le_trans by blast
  have strict: "\<forall>k' \<in> set (k # ks). \<forall>h. active s k' = Some h \<longrightarrow> h < length (streams s) \<longrightarrow>
      cancels (streams s ! h) < cancels (streams s2 ! h)"
  proof (intro ballI allI impI)
    fix k' h assume kin: "k' \<in> set (k # ks)" and act: "active s k' = Some h"
      and hv: "h < length (streams s)"
    show "cancels (streams s ! h) < cancels (streams s2 ! h)"
    proof (cases "k' = k")
      case True
      then have "cancels (streams s1 ! h) = Suc (cancels (streams s ! h))"
        unfolding s1 using act hv by (simp add: cancelSubscription_requests_cancel)
      then show ?thesis using i2[of h] by simp
    next
      case False
      then have "k' \<in> set ks" using kin by simp
      then have "cancels (streams s1 ! h) < cancels (streams s2 ! h)"
        using i4 act hv a1 e1(3) by simp
      then show ?thesis using e1(4)[of h] by simp
    qed
  qed
  show ?case
    unfolding r using e1 i1 i3 a1 n1 mono strict by simp
qed

lemma wf_example_connected: "wf example_connected"
  unfolding example_connected_def
  using wf_constructor good_connect[of constructor example_options example_LndGrpc]
  by (simp add: good_def)

lemma wf_example_subscribed: "wf example_subscribed"
  unfolding example_subscribed_def
  using wf_example_connected good_subscribe[of example_connected "[''info'']"]
  by (simp add: good_def)


lemma wf_listener_keys:
  assumes "wf s" "h < length (streams s)"
  shows "\<forall>l \<in> set (on_end (streams s ! h)) \<union> set (on_status (streams s ! h)).
           key_of l = handle_key s h"
  using assms by (simp add: wf_def listeners_def)

lemma stream_emit_terminating:
  assumes "h < length (streams s)" "terminating ev"
  shows "\<exists>ls. set ls \<subseteq> listeners (streams s ! h) \<and>
              stream_emit h ev s = (None, run_listeners ls ev s) \<and>
              (ev = End \<longrightarrow> ls = on_end (streams s ! h)) \<and>
              (ev \<noteq> End \<longrightarrow> ls = on_status (streams s ! h))"
  using assms by (cases ev) (auto simp: stream_emit_def listeners_def)

lemma handle_key_run_listeners [simp]:
  "handle_key (run_listeners ls ev s) h = handle_key s h"
  by (simp add: handle_key_def run_listeners_frame)

lemma table_heap_eq:
  "heap s' = heap s \<Longrightarrow> subscriptions s' = subscriptions s \<Longrightarrow> table s' = table s"
  by (simp add: table_def)

lemma detached_noop:
  assumes "wf s" "h < length (streams s)" "terminating ev"
    "handle_key s h \<notin> set (keys (table s))"
  shows "fst (stream_emit h ev s) = None \<and> table (snd (stream_emit h ev s)) = table s"
proof -
  obtain ls where ls: "set ls \<subseteq> listeners (streams s ! h)"
    and eq: "stream_emit h ev s = (None, run_listeners ls ev s)"
    using stream_emit_terminating[OF assms(2,3)] by blast
  have "\<forall>l \<in> set ls. key_of l = handle_key s h"
    using wf_listener_keys[OF assms(1,2)] ls by (auto simp: listeners_def)
  then have "\<forall>l \<in> set ls. key_of l \<notin> set (keys (table s))" using assms(4) by simp
  then have "heap (run_listeners ls ev s) = heap s" by (rule run_listeners_absent)
  then have "table (run_listeners ls ev s) = table s"
    by (rule table_heap_eq) (simp add: run_listeners_frame)
  then show ?thesis using eq by simp
qed

lemma terminating_removes_key:
  assumes "wf s" "h < length (streams s)" "terminating ev"
  shows "handle_key s h \<notin> set (keys (table (snd (stream_emit h ev s))))"
proof -
  obtain ls where eq: "stream_emit h ev s = (None, run_listeners ls ev s)"
    and e1: "ev = End \<longrightarrow> ls = on_end (streams s ! h)"
    and e2: "ev \<noteq> End \<longrightarrow> ls = on_status (streams s ! h)"
    using stream_emit_terminating[OF assms(2,3)] by blast
  have mem: "OnEndSubscribe (handle_key s h) \<in> set (on_end (streams s ! h))"
    "OnStatusSubscribe (handle_key s h) \<in> set (on_status (streams s ! h))"
    using assms(1,2) by (simp_all add: wf_def)
  have "\<exists>l \<in> set ls. fires l ev \<and> key_of l = handle_key s h"
  proof (cases ev)
    case End
    then show ?thesis using e1 mem(1) by force
  next
    case (Status c)
    then have "c = CANCELLED" using assms(3) by simp
    then show ?thesis using Status e2 mem(2) by force
  next
    case (Data d)
    then show ?thesis using assms(3) by simp
  qed
  then have "handle_key s h \<in> key_of ` {l \<in> set ls. fires l ev}" by force
  then show ?thesis
    using keys_run_listeners[OF wf_heap_ok[OF assms(1)], of ls ev] eq by simp
qed

lemma tracks_extends:
  assumes "extends s s'" "tracks p h k s"
  shows "tracks p h k s'"
proof -
  have p: "p < length (promises s)" using assms(2) by (simp add: tracks_def)
  have "\<forall>h' < length (streams s'). \<forall>l \<in> listeners (streams s' ! h').
        pid_of l = Some p \<longrightarrow> h' = h \<and> key_of l = k"
  proof (intro allI impI ballI)
    fix h' l assume h': "h' < length (streams s')" and l: "l \<in> listeners (streams s' ! h')"
      and pl: "pid_of l = Some p"
    from assms(1) h' l pl p have "h' < length (streams s) \<and> l \<in> listeners (streams s ! h')"
      unfolding extends_def by blast
    then show "h' = h \<and> key_of l = k" using assms(2) pl unfolding tracks_def by blast
  qed
  moreover have "p < length (promises s')" using assms(1) p by (simp add: extends_def)
  ultimately show ?thesis by (simp add: tracks_def)
qed

lemma promise_extends:
  assumes "extends s s'" "p < length (promises s)"
  shows "promises s' ! p = promises s ! p"
proof -
  have "take (length (promises s)) (promises s') ! p = promises s' ! p"
    using assms(2) by simp
  then show ?thesis using assms(1) by (simp add: extends_def)
qed

lemma tracks_cancelling:
  assumes "wf s" "active s k = Some h"
  shows "tracks (length (promises s)) h k (cancelling k h s)"
    and "\<not> promises (cancelling k h s) ! length (promises s)"
proof -
  let ?p = "length (promises s)"
  let ?s' = "cancelling k h s"
  have hv: "h < length (streams s)" using assms by (simp add: wf_def)
  have old: "\<And>h' l. h' < length (streams s) \<Longrightarrow> l \<in> listeners (streams s ! h') \<Longrightarrow>
      pid_of l \<noteq> Some ?p"
    using assms(1) unfolding wf_def by fastforce
  have "\<forall>h' < length (streams ?s'). \<forall>l \<in> listeners (streams ?s' ! h').
        pid_of l = Some ?p \<longrightarrow> h' = h \<and> key_of l = k"
  proof (intro allI impI ballI)
    fix h' l assume h': "h' < length (streams ?s')" and l: "l \<in> listeners (streams ?s' ! h')"
      and pl: "pid_of l = Some ?p"
    have h'': "h' < length (streams s)" using h' by (simp add: streams_cancelling)
    show "h' = h \<and> key_of l = k"
    proof (cases "h' = h")
      case True
      then have "l \<in> listeners (streams s ! h) \<union> {OnStatusCancel k ?p, OnEndCancel k ?p}"
        using l hv by (simp add: streams_cancelling listeners_cancel)
      then show ?thesis using True old[OF hv] pl by auto
    next
      case False
      then have "l \<in> listeners (streams s ! h')" using l by (simp add: streams_cancelling)
      then show ?thesis using old[OF h''] pl by blast
    qed
  qed
  then show "tracks ?p h k ?s'" by (simp add: tracks_def promises_cancelling)
  show "\<not> promises ?s' ! ?p" by (simp add: promises_cancelling)
qed

lemma step_terminating_effect:
  assumes "wf s" "tracks p h k s" "terminating ev"
  shows "tracks p h k (snd (stream_emit h' ev s))"
    and "\<not> promises s ! p \<Longrightarrow> promises (snd (stream_emit h' ev s)) ! p \<Longrightarrow>
         h' = h \<and> k \<notin> set (keys (table (snd (stream_emit h' ev s))))"
proof -
  let ?s' = "snd (stream_emit h' ev s)"
  have p: "p < length (promises s)" using assms(2) by (simp add: tracks_def)
  show "tracks p h k ?s'"
  proof (cases "h' < length (streams s)")
    case False
    then show ?thesis using assms(2) by (simp add: stream_emit_def)
  next
    case True
    then obtain ls where "stream_emit h' ev s = (None, run_listeners ls ev s)"
      using stream_emit_terminating[OF True assms(3)] by blast
    then show ?thesis using assms(2) by (simp add: tracks_def run_listeners_frame)
  qed
  assume un: "\<not> promises s ! p" and re: "promises ?s' ! p"
  show "h' = h \<and> k \<notin> set (keys (table ?s'))"
  proof (cases "h' < length (streams s)")
    case False
    then show ?thesis using un re by (simp add: stream_emit_def)
  next
    case True
    then obtain ls where ls: "set ls \<subseteq> listeners (streams s ! h')"
      and eq: "stream_emit h' ev s = (None, run_listeners ls ev s)"
      using stream_emit_terminating[OF True assms(3)] by blast
    have "promises (run_listeners ls ev s) ! p" using re eq by simp
    then obtain l where l: "l \<in> set ls" "fires l ev" "pid_of l = Some p"
      using promises_run_listeners[OF p, of ls ev] un by blast
    have "l \<in> listeners (streams s ! h')" using l(1) ls by blast
    then have hk: "h' = h \<and> key_of l = k" using assms(2) True l(3) unfolding tracks_def by blast
    then have "k \<in> key_of ` {l \<in> set ls. fires l ev}" using l by force
    then have "k \<notin> set (keys (table (run_listeners ls ev s)))"
      using keys_run_listeners[OF wf_heap_ok[OF assms(1)], of ls ev] by simp
    then show ?thesis using hk eq by simp
  qed
qed

lemma tracks_step:
  assumes "wf s" "tracks p h k s"
  shows "tracks p h k (step a s)"
proof (cases "\<exists>h' ev. a = StreamEmit h' ev \<and> terminating ev")
  case True
  then show ?thesis using step_terminating_effect(1)[OF assms] by auto
next
  case False
  then have "extends s (step a s)" using good_step[of a s] by (simp add: good_def)
  then show ?thesis using assms(2) by (rule tracks_extends)
qed

lemma tracks_run:
  "wf s \<Longrightarrow> tracks p h k s \<Longrightarrow> tracks p h k (run as s)"
  by (induction as arbitrary: s) (simp_all add: wf_step tracks_step)

lemma resolution_step:
  assumes "wf s" "tracks p h k s" "\<not> promises s ! p" "promises (step a s) ! p"
  shows "(\<exists>ev. a = StreamEmit h ev \<and> terminating ev) \<and> k \<notin> set (keys (table (step a s)))"
proof (cases "\<exists>h' ev. a = StreamEmit h' ev \<and> terminating ev")
  case True
  then obtain h' ev where a: "a = StreamEmit h' ev" and t: "terminating ev" by blast
  have "h' = h \<and> k \<notin> set (keys (table (snd (stream_emit h' ev s))))"
    using step_terminating_effect(2)[OF assms(1,2) t assms(3)] assms(4) a by simp
  then show ?thesis using a t by auto
next
  case False
  then have "extends s (step a s)" using good_step[of a s] by (simp add: good_def)
  moreover have "p < length (promises s)" using assms(2) by (simp add: tracks_def)
  ultimately have "promises (step a s) ! p = promises s ! p" by (rule promise_extends)
  then show ?thesis using assms(3,4) by simp
qed

lemma resolution_run:
  assumes "wf s" "tracks p h k s"
    and "\<not> resolved (run as s) (Pending p)" "resolved (step a (run as s)) (Pending p)"
  shows "(\<exists>ev. a = StreamEmit h ev \<and> terminating ev) \<and>
         k \<notin> set (keys (table (step a (run as s))))"
proof -
  have w: "wf (run as s)" using assms(1) by (rule wf_run)
  have t: "tracks p h k (run as s)" using assms(1,2) by (rule tracks_run)
  have p: "p < length (promises (run as s))" using t by (simp add: tracks_def)
  have un: "\<not> promises (run as s) ! p" using assms(3) p by (simp add: resolved_def)
  have re: "promises (step a (run as s)) ! p" using assms(4) by (simp add: resolved_def)
  show ?thesis using resolution_step[OF w t un re] .
qed

lemma cancel_each_tracks:
  assumes "wf s" "i < length ks" "active s (ks ! i) = Some h"
  shows "\<exists>p. fst (cancel_each ks s) ! i = Pending p \<and>
             tracks p h (ks ! i) (snd (cancel_each ks s)) \<and>
             \<not> promises (snd (cancel_each ks s)) ! p"
  using assms
proof (induction ks arbitrary: s i)
  case Nil
  then show ?case by simp
next
  case (Cons k ks)
  obtain c s1 where c: "cancelSubscription k s = (c, s1)" by (cases "cancelSubscription k s")
  obtain cs s2 where cs: "cancel_each ks s1 = (cs, s2)" by (cases "cancel_each ks s1")
  have r: "cancel_each (k # ks) s = (c # cs, s2)" using c cs by simp
  have s1: "s1 = snd (cancelSubscription k s)" using c by simp
  have w1: "wf s1" using good_cancelSubscription[of s k] Cons.prems(1) s1 by (simp add: good_def)
  have g2: "extends s1 s2" using good_cancel_each[of s1 ks] cs by (simp add: good_def)
  show ?case
  proof (cases i)
    case 0
    then have act: "active s k = Some h" using Cons.prems(3) by simp
    have c1: "c = Pending (length (promises s))" and s1': "s1 = cancelling k h s"
      using c cancelSubscription_active[OF act] by simp_all
    have t1: "tracks (length (promises s)) h k s1" and u1: "\<not> promises s1 ! length (promises s)"
      unfolding s1' using tracks_cancelling[OF Cons.prems(1) act] by simp_all
    have t2: "tracks (length (promises s)) h k s2" using tracks_extends[OF g2 t1] .
    have "length (promises s) < length (promises s1)" using t1 by (simp add: tracks_def)
    then have u2: "\<not> promises s2 ! length (promises s)"
      using promise_extends[OF g2] u1 by simp
    show ?thesis unfolding r using 0 c1 t2 u2 by simp
  next
    case (Suc j)
    then have j: "j < length ks" and act: "active s1 (ks ! j) = Some h"
      using Cons.prems(2,3) s1 by simp_all
    from Cons.IH[OF w1 j act] cs show ?thesis unfolding r using Suc by simp
  qed
qed

lemma example_cancelling_eq:
  "example_cancelling =
     example_connected
       \<lparr>heap := [[(''info'', Some 0)]],
        streams :=
          [\<lparr>smethod = ''subscribeGetInfo'',
            on_end = [OnEndSubscribe ''info'', OnEndCancel ''info'' 0],
            on_status = [OnStatusSubscribe ''info'', OnStatusCancel ''info'' 0],
            cancels = Suc 0\<rparr>],
        promises := [False],
        forwarded := [],
        grpcLog := [InfoSubscribing [''info''], InfoStarted ''info'',
                    InfoUnsubscribingFrom ''info'']\<rparr>"
proof -
  have act: "active example_subscribed ''info'' = Some 0"
    by (simp add: example_subscribed_eq example_connected_eq active_def table_def own_handle_def)
  show ?thesis
    unfolding example_cancelling_def cancelSubscription_active[OF act]
    by (simp add: cancelling_def example_subscribed_eq example_connected_eq SUBSCRIPTIONS_def
        new_stream_def request_cancel_def add_cancel_listeners_def)
qed

lemma subscribe_single_inactive:
  assumes "heap_ok s" "lightning_ready s" "k \<in> set allSubKeys" "active s k = None"
  shows "subscribe [k] s = (None, started k (logmsg (InfoSubscribing [k]) s))"
proof -
  have t: "subscribe_targets [k] = [k]"
    using assms(3)
    by (auto simp: subscribe_targets_def intersection_def allSubKeys_def SUBSCRIPTIONS_def)
  have "subscribe_key k (logmsg (InfoSubscribing [k]) s) =
      (None, started k (logmsg (InfoSubscribing [k]) s))"
    by (rule subscribe_key_inactive) (use assms in simp_all)
  then show ?thesis by (simp add: subscribe_def t)
qed

lemma unsubscribe_effect:
  "heap (snd (unsubscribe ks s)) = heap s"
  "subscriptions (snd (unsubscribe ks s)) = subscriptions s"
  "length (streams (snd (unsubscribe ks s))) = length (streams s)"
proof -
  let ?ts = "unsubscribe_targets ks s"
  have "heap (snd (unsubscribe ks s)) = heap s \<and>
    subscriptions (snd (unsubscribe ks s)) = subscriptions s \<and>
    length (streams (snd (unsubscribe ks s))) = length (streams s)"
  proof (cases "?ts = []")
    case True
    then show ?thesis by (simp add: unsubscribe_def)
  next
    case False
    then show ?thesis
      using cancel_each_effect[of ?ts "logmsg (InfoUnsubscribing ?ts) s"]
      by (simp add: unsubscribe_def Let_def logmsg_def)
  qed
  then show "heap (snd (unsubscribe ks s)) = heap s"
    "subscriptions (snd (unsubscribe ks s)) = subscriptions s"
    "length (streams (snd (unsubscribe ks s))) = length (streams s)"
    by simp_all
qed

lemma active_unsubscribe [simp]: "active (snd (unsubscribe ks s)) k = active s k"
  by (simp add: active_def table_def unsubscribe_effect)

lemma gate_idle:
  "\<not> (truthy d \<and> active s ''channelgraph'' = None) \<Longrightarrow> gate d s = (None, s)"
  by (auto simp: gate_alt)

lemma run_gates_idle:
  "\<not> (truthy d \<and> active s ''channelgraph'' = None) \<Longrightarrow> run_gates n d s = (None, s)"
  by (induction n) (simp_all add: gate_idle)

lemma active_info_keys:
  "active s k = Some h \<Longrightarrow> k \<in> set (keys (table s))"
proof -
  assume "active s k = Some h"
  then have "map_of (table s) k = Some (Some h)"
    by (auto simp: active_def own_handle_def split: option.splits)
  then have "(k, Some h) \<in> set (table s)" by (rule map_of_SomeD)
  then show ?thesis by (force simp: keys_def)
qed

lemma singleton_list:
  "distinct xs \<Longrightarrow> set xs = {x} \<Longrightarrow> xs = [x]"
  by (cases xs) (auto simp: subset_singleton_iff)

lemma unsubscribe_single_active:
  assumes "active s k = Some h"
  shows "unsubscribe [k] s =
     ([Pending (length (promises s))], cancelling k h (logmsg (InfoUnsubscribing [k]) s))"
proof -
  have "k \<in> set (keys (table s))" using assms by (rule active_info_keys)
  then have "set (unsubscribe_targets [k] s) = {k}"
    by (auto simp: unsubscribe_targets_def set_intersection)
  moreover have "distinct (unsubscribe_targets [k] s)"
    by (simp add: unsubscribe_targets_def distinct_intersection)
  ultimately have t: "unsubscribe_targets [k] s = [k]"
    by (simp add: singleton_list)
  have act: "active (logmsg (InfoUnsubscribing [k]) s) k = Some h" using assms by simp
  show ?thesis
    using cancelSubscription_active[OF act]
    by (simp add: unsubscribe_def t logmsg_def)
qed

lemma gates_subscribe_key: "gates (snd (subscribe_key k s)) = gates s"
  using subscribe_key_cases[of k s]
  by (auto simp: logmsg_def started_def started_undefined_def forwardAll_def set_table_def)

lemma gates_forEach_subscribe_key: "gates (snd (forEach subscribe_key ks s)) = gates s"
proof (induction ks arbitrary: s)
  case Nil
  show ?case by simp
next
  case (Cons k ks)
  obtain r s1 where r: "subscribe_key k s = (r, s1)" by (cases "subscribe_key k s")
  have g1: "gates s1 = gates s" using gates_subscribe_key[of k s] r by simp
  show ?case using r g1 Cons.IH[of s1] by (cases r) simp_all
qed

lemma gates_subscribe: "gates (snd (subscribe ks s)) = gates s"
  by (simp add: subscribe_def Let_def gates_forEach_subscribe_key logmsg_def)

lemma subscribeAll_keeps_channelgraph:
  assumes "heap_ok s" "lightning_ready s"
  shows "fst (subscribeAll s) = None"
    and "active (snd (subscribeAll s)) ''channelgraph'' = active s ''channelgraph''"
    and "gates (snd (subscribeAll s)) = Suc (gates s)"
proof -
  let ?ks = "[''invoices'', ''transactions'', ''info'']"
  let ?s0 = "logmsg (InfoSubscribing ?ks) s"
  have ts: "subscribe_targets ?ks = ?ks"
    by (simp add: subscribe_targets_def intersection_def allSubKeys_def SUBSCRIPTIONS_def)
  have eq: "subscribe ?ks s = forEach subscribe_key ?ks ?s0"
    by (simp add: subscribe_def ts)
  have sub: "set ?ks \<subseteq> set allSubKeys" by (simp add: allSubKeys_def SUBSCRIPTIONS_def)
  have ok0: "heap_ok ?s0" and rd0: "lightning_ready ?s0" using assms by simp_all
  from forEach_subscribe_key[OF ok0 rd0 sub] obtain s' where
    run: "forEach subscribe_key ?ks ?s0 = (None, s')"
    and keep: "\<forall>k. k \<notin> set (fresh_keys ?s0 ?ks) \<longrightarrow> map_of (table s') k = map_of (table ?s0) k"
    by auto
  have "''channelgraph'' \<notin> set (fresh_keys ?s0 ?ks)" by (simp add: fresh_keys_def)
  then have "map_of (table s') ''channelgraph'' = map_of (table s) ''channelgraph''"
    using keep by simp
  then have a: "active s' ''channelgraph'' = active s ''channelgraph''"
    by (simp add: active_def own_handle_def)
  have g: "gates s' = gates s"
    using gates_subscribe[of ?ks s] eq run by simp
  show "fst (subscribeAll s) = None"
    and "active (snd (subscribeAll s)) ''channelgraph'' = active s ''channelgraph''"
    and "gates (snd (subscribeAll s)) = Suc (gates s)"
    using eq run a g by (simp_all add: subscribeAll_def active_def table_def)
qed

lemma unsubscribe_single_inactive:
  assumes "active s k = None"
  shows "streams (snd (unsubscribe [k] s)) = streams s"
proof -
  have d: "distinct (unsubscribe_targets [k] s)"
    by (simp add: unsubscribe_targets_def distinct_intersection)
  have sub: "set (unsubscribe_targets [k] s) \<subseteq> {k}"
    by (auto simp: unsubscribe_targets_def set_intersection)
  show ?thesis
  proof (cases "unsubscribe_targets [k] s = []")
    case True
    then show ?thesis by (simp add: unsubscribe_def)
  next
    case False
    then have st: "set (unsubscribe_targets [k] s) = {k}"
      using sub by (cases "unsubscribe_targets [k] s") auto
    then have t: "unsubscribe_targets [k] s = [k]" using d by (simp add: singleton_list)
    have "k \<in> set (keys (table s))"
      using st by (auto simp: unsubscribe_targets_def set_intersection)
    then have "entry (logmsg (InfoUnsubscribing [k]) s) k = NoMember"
      using assms by (simp add: entry_own_key)
    then show ?thesis
      by (simp add: unsubscribe_def t cancelSubscription_inactive_eq logmsg_def)
  qed
qed

lemma gate_triggers:
  assumes "wf s" "lightning_ready s" "truthy d" "active s ''channelgraph'' = None"
  shows "\<exists>s'. gate d s = (None, s') \<and>
              active s' ''channelgraph'' = Some (length (streams s)) \<and>
              length (streams s') = Suc (length (streams s)) \<and>
              streams s' ! length (streams s) =
                new_stream ''subscribeTransactions'' ''channelgraph'' \<and>
              (\<forall>h. active s ''info'' = Some h \<longrightarrow>
                 cancels (streams s' ! h) = Suc (cancels (streams s ! h)) \<and>
                 ''subscribeGetInfo'' \<notin> set (forwarded s'))"
proof -
  let ?cg = "''channelgraph''"
  let ?s0 = "logmsg (InfoSubscribing [?cg]) s"
  let ?s1 = "started ?cg ?s0"
  let ?s' = "snd (unsubscribe [''info''] ?s1)"
  have ok: "heap_ok s" using assms(1) by (rule wf_heap_ok)
  have ok0: "heap_ok ?s0" using ok by simp
  have kin: "?cg \<in> set allSubKeys" by (simp add: allSubKeys_def SUBSCRIPTIONS_def)
  have m: "method_of ?cg = ''subscribeTransactions''"
    by (simp add: method_of_def SUBSCRIPTIONS_def)
  have sub: "subscribe [?cg] s = (None, ?s1)"
    using subscribe_single_inactive[OF ok assms(2) kin assms(4)] .
  have g: "gate d s = (None, ?s')"
    using assms(3,4) sub by (simp add: gate_alt)
  have st0: "streams ?s0 = streams s" by (simp add: logmsg_def)
  have st1: "streams ?s1 = streams s @ [new_stream ''subscribeTransactions'' ?cg]"
    using started_props(1)[OF ok0, of ?cg] st0 m by simp
  have a1: "\<And>k. active ?s1 k = (if k = ?cg then Some (length (streams s)) else active s k)"
    using active_started[OF ok0, of ?cg] st0 by simp
  have c1: "active ?s' ?cg = Some (length (streams s))" using a1 by simp
  have c2: "length (streams ?s') = Suc (length (streams s))"
    using st1 by (simp add: unsubscribe_effect)
  have c3: "streams ?s' ! length (streams s) = new_stream ''subscribeTransactions'' ?cg"
    and c4: "\<forall>h. active s ''info'' = Some h \<longrightarrow>
                 cancels (streams ?s' ! h) = Suc (cancels (streams s ! h)) \<and>
                 ''subscribeGetInfo'' \<notin> set (forwarded ?s')"
  proof -
    have inf: "active ?s1 ''info'' = active s ''info''" using a1 by simp
    show "streams ?s' ! length (streams s) = new_stream ''subscribeTransactions'' ?cg"
    proof (cases "active s ''info''")
      case None
      then have "streams ?s' = streams ?s1"
        using inf by (simp add: unsubscribe_single_inactive)
      then show ?thesis using st1 by simp
    next
      case (Some h)
      then have hv: "h < length (streams s)" using assms(1) by (simp add: wf_def)
      have "active ?s1 ''info'' = Some h" using Some inf by simp
      then have "?s' = cancelling ''info'' h (logmsg (InfoUnsubscribing [''info'']) ?s1)"
        by (simp add: unsubscribe_single_active)
      then show ?thesis using st1 hv by (simp add: streams_cancelling logmsg_def)
    qed
    show "\<forall>h. active s ''info'' = Some h \<longrightarrow>
                 cancels (streams ?s' ! h) = Suc (cancels (streams s ! h)) \<and>
                 ''subscribeGetInfo'' \<notin> set (forwarded ?s')"
    proof (intro allI impI)
      fix h assume act: "active s ''info'' = Some h"
      then have hv: "h < length (streams s)" using assms(1) by (simp add: wf_def)
      have "active ?s1 ''info'' = Some h" using act inf by simp
      then have eq: "?s' = cancelling ''info'' h (logmsg (InfoUnsubscribing [''info'']) ?s1)"
        by (simp add: unsubscribe_single_active)
      have "streams ?s1 ! h = streams s ! h" using st1 hv by (simp add: nth_append)
      then have 1: "cancels (streams ?s' ! h) = Suc (cancels (streams s ! h))"
        unfolding eq using st1 hv
        by (simp add: streams_cancelling logmsg_def request_cancel_def add_cancel_listeners_def)
      have 2: "''subscribeGetInfo'' \<notin> set (forwarded ?s')"
        unfolding eq by (simp add: cancelling_def SUBSCRIPTIONS_def)
      show "cancels (streams ?s' ! h) = Suc (cancels (streams s ! h)) \<and>
                 ''subscribeGetInfo'' \<notin> set (forwarded ?s')"
        using 1 2 by simp
    qed
  qed
  show ?thesis using g c1 c2 c3 c4 by blast
qed

lemma wf_example_all: "wf example_all"
  unfolding example_all_def
  using wf_example_connected good_subscribeAll[of example_connected]
  by (simp add: good_def)

lemma wf_reachable: "wf (run as constructor)"
  using wf_constructor by (rule wf_run)


lemma connect_lightning_ready:
  assumes "\<not> already_connected s"
    and "tservices (LndGrpc (getConnectionSettings (s\<lparr>options := opts\<rparr>))) = Some lightning"
  shows "lightning_ready (snd (connect opts LndGrpc s))"
  using assms
  by (simp add: connect_def Let_def lightning_ready_def object_assign_def
      lightningSubscriptions_def SUBSCRIPTIONS_def)


section \<open>The claims\<close>

text \<open>
  C1. Whatever keys are passed, \<open>subscribe\<close> targets all known keys when none is passed
  and otherwise the known keys among those passed, each once. On an instance whose
  Lightning service offers the streaming methods, it does not throw; a targeted key that
  is already active keeps its table entry and a warning is logged for it, every other
  targeted key gets an active entry holding a stream handle opened by this call, exactly
  one handle is opened per such key, and the entries of all other keys stay as they were.
\<close>

theorem subscribe_targets_and_entries:
  assumes "heap_ok s" and "lightning_ready s"
  shows "set (subscribe_targets ks) = (if ks = [] then set allSubKeys else set allSubKeys \<inter> set ks) \<and>
         distinct (subscribe_targets ks) \<and>
         (\<exists>s'. subscribe ks s = (None, s') \<and>
            (\<forall>k \<in> set (subscribe_targets ks).
               (active s k \<noteq> None \<longrightarrow>
                  map_of (table s') k = map_of (table s) k \<and>
                  WarnAlreadyActive k \<in> set (drop (length (grpcLog s)) (grpcLog s'))) \<and>
               (active s k = None \<longrightarrow>
                  (\<exists>h. active s' k = Some h \<and> length (streams s) \<le> h \<and> h < length (streams s') \<and>
                       streams s' ! h = new_stream (method_of k) k))) \<and>
            (\<forall>k. k \<notin> set (subscribe_targets ks) \<longrightarrow> map_of (table s') k = map_of (table s) k) \<and>
            take (length (streams s)) (streams s') = streams s \<and>
            length (streams s') = length (streams s) + length (fresh_keys s (subscribe_targets ks)))"
proof -
  let ?ts = "subscribe_targets ks"
  have sub: "set ?ts \<subseteq> set allSubKeys"
    by (auto simp: subscribe_targets_set split: if_splits)
  have d: "distinct ?ts" by (rule subscribe_targets_distinct)
  have body: "\<exists>s'. subscribe ks s = (None, s') \<and>
            (\<forall>k \<in> set ?ts.
               (active s k \<noteq> None \<longrightarrow>
                  map_of (table s') k = map_of (table s) k \<and>
                  WarnAlreadyActive k \<in> set (drop (length (grpcLog s)) (grpcLog s'))) \<and>
               (active s k = None \<longrightarrow>
                  (\<exists>h. active s' k = Some h \<and> length (streams s) \<le> h \<and> h < length (streams s') \<and>
                       streams s' ! h = new_stream (method_of k) k))) \<and>
            (\<forall>k. k \<notin> set ?ts \<longrightarrow> map_of (table s') k = map_of (table s) k) \<and>
            take (length (streams s)) (streams s') = streams s \<and>
            length (streams s') = length (streams s) + length (fresh_keys s ?ts)"
  proof (cases "?ts = []")
    case True
    then show ?thesis by (simp add: subscribe_def fresh_keys_def)
  next
    case False
    let ?s0 = "logmsg (InfoSubscribing ?ts) s"
    have eq: "subscribe ks s = forEach subscribe_key ?ts ?s0"
      using False by (simp add: subscribe_def Let_def)
    have ok0: "heap_ok ?s0" and rd0: "lightning_ready ?s0"
      using assms by simp_all
    have fk0: "fresh_keys ?s0 ?ts = fresh_keys s ?ts" by (simp add: fresh_keys_def)
    from forEach_subscribe_key[OF ok0 rd0 sub d] obtain s' where
      run: "forEach subscribe_key ?ts ?s0 = (None, s')"
      and st: "streams s' = streams ?s0 @ map (\<lambda>k. new_stream (method_of k) k) (fresh_keys ?s0 ?ts)"
      and lg: "grpcLog s' = grpcLog ?s0 @
             map (\<lambda>k. if active ?s0 k = None then InfoStarted k else WarnAlreadyActive k) ?ts"
      and keep: "\<forall>k. k \<notin> set (fresh_keys ?s0 ?ts) \<longrightarrow> map_of (table s') k = map_of (table ?s0) k"
      and new: "\<forall>k \<in> set (fresh_keys ?s0 ?ts). \<exists>h. active s' k = Some h \<and> length (streams ?s0) \<le> h \<and>
               h < length (streams s') \<and> streams s' ! h = new_stream (method_of k) k"
      by blast
    have st': "streams s' = streams s @ map (\<lambda>k. new_stream (method_of k) k) (fresh_keys s ?ts)"
      using st fk0 by (simp add: logmsg_def)
    have lg': "drop (length (grpcLog s)) (grpcLog s') = InfoSubscribing ?ts #
             map (\<lambda>k. if active s k = None then InfoStarted k else WarnAlreadyActive k) ?ts"
    proof -
      have "grpcLog s' = grpcLog ?s0 @
             map (\<lambda>k. if active s k = None then InfoStarted k else WarnAlreadyActive k) ?ts"
        using lg by simp
      then show ?thesis by (simp add: logmsg_def)
    qed
    have keep': "\<forall>k. k \<notin> set (fresh_keys s ?ts) \<longrightarrow> map_of (table s') k = map_of (table s) k"
      using keep fk0 by simp
    have new': "\<forall>k \<in> set (fresh_keys s ?ts). \<exists>h. active s' k = Some h \<and> length (streams s) \<le> h \<and>
               h < length (streams s') \<and> streams s' ! h = new_stream (method_of k) k"
      using new fk0 by (simp add: logmsg_def)
    have a: "\<forall>k \<in> set ?ts. active s k \<noteq> None \<longrightarrow>
                  map_of (table s') k = map_of (table s) k \<and>
                  WarnAlreadyActive k \<in> set (drop (length (grpcLog s)) (grpcLog s'))"
    proof (intro ballI impI)
      fix k assume kin: "k \<in> set ?ts" and act: "active s k \<noteq> None"
      then have "k \<notin> set (fresh_keys s ?ts)" by (simp add: fresh_keys_def)
      then have 1: "map_of (table s') k = map_of (table s) k" using keep' by simp
      have "WarnAlreadyActive k \<in>
          (\<lambda>k. if active s k = None then InfoStarted k else WarnAlreadyActive k) ` set ?ts"
        using kin act by force
      then have 2: "WarnAlreadyActive k \<in> set (drop (length (grpcLog s)) (grpcLog s'))"
        unfolding lg' by simp
      show "map_of (table s') k = map_of (table s) k \<and>
                  WarnAlreadyActive k \<in> set (drop (length (grpcLog s)) (grpcLog s'))"
        using 1 2 by simp
    qed
    have b: "\<forall>k \<in> set ?ts. active s k = None \<longrightarrow>
                  (\<exists>h. active s' k = Some h \<and> length (streams s) \<le> h \<and> h < length (streams s') \<and>
                       streams s' ! h = new_stream (method_of k) k)"
      using new' by (simp add: fresh_keys_def)
    have c: "\<forall>k. k \<notin> set ?ts \<longrightarrow> map_of (table s') k = map_of (table s) k"
      using keep' by (simp add: fresh_keys_def)
    have e: "take (length (streams s)) (streams s') = streams s"
      and f: "length (streams s') = length (streams s) + length (fresh_keys s ?ts)"
      using st' by simp_all
    show ?thesis using eq run a b c e f by auto
  qed
  show ?thesis using subscribe_targets_set[of ks] d body by blast
qed

theorem subscribe_targets_and_entries_witness:
  "heap_ok example_subscribed \<and> lightning_ready example_subscribed \<and>
   set (subscribe_targets [''invoices'', ''bogus'', ''info'', ''info'']) = {''invoices'', ''info''} \<and>
   (\<exists>s'. subscribe [''invoices'', ''bogus'', ''info'', ''info''] example_subscribed = (None, s') \<and>
      map_of (table s') ''info'' = Some (Some 0) \<and>
      WarnAlreadyActive ''info'' \<in> set (drop 2 (grpcLog s')) \<and>
      active s' ''invoices'' = Some 1 \<and>
      length (streams s') = 2)"
proof -
  let ?ks = "[''invoices'', ''bogus'', ''info'', ''info'']"
  have h1: "heap_ok example_subscribed"
    by (simp add: heap_ok_def example_subscribed_eq example_connected_eq)
  have h2: "lightning_ready example_subscribed"
    by (simp add: lightning_ready_def example_subscribed_eq example_connected_eq
        lightningSubscriptions_def SUBSCRIPTIONS_def)
  have ts: "subscribe_targets ?ks = [''invoices'', ''info'']"
    by (simp add: subscribe_targets_def intersection_def allSubKeys_def SUBSCRIPTIONS_def)
  have a1: "active example_subscribed ''info'' = Some 0"
    and a2: "active example_subscribed ''invoices'' = None"
    and l0: "length (grpcLog example_subscribed) = 2"
    and n0: "length (streams example_subscribed) = 1"
    and t0: "map_of (table example_subscribed) ''info'' = Some (Some 0)"
    by (simp_all add: example_subscribed_eq example_connected_eq active_def table_def own_handle_def)
  have fk: "fresh_keys example_subscribed (subscribe_targets ?ks) = [''invoices'']"
    using a1 a2 by (simp add: ts fresh_keys_def)
  from subscribe_targets_and_entries[OF h1 h2, of ?ks] obtain s' where
    run: "subscribe ?ks example_subscribed = (None, s')"
    and each: "\<forall>k \<in> set (subscribe_targets ?ks).
               (active example_subscribed k \<noteq> None \<longrightarrow>
                  map_of (table s') k = map_of (table example_subscribed) k \<and>
                  WarnAlreadyActive k \<in> set (drop (length (grpcLog example_subscribed)) (grpcLog s'))) \<and>
               (active example_subscribed k = None \<longrightarrow>
                  (\<exists>h. active s' k = Some h \<and> length (streams example_subscribed) \<le> h \<and>
                       h < length (streams s') \<and>
                       streams s' ! h = new_stream (method_of k) k))"
    and len: "length (streams s') =
        length (streams example_subscribed) + length (fresh_keys example_subscribed (subscribe_targets ?ks))"
    by blast
  have i: "map_of (table s') ''info'' = Some (Some 0) \<and>
      WarnAlreadyActive ''info'' \<in> set (drop 2 (grpcLog s'))"
    using each a1 t0 l0 by (simp add: ts)
  have len2: "length (streams s') = 2" using len fk n0 by simp
  obtain h where "active s' ''invoices'' = Some h" "1 \<le> h" "h < 2"
    using each a2 n0 len2 by (auto simp: ts)
  then have j: "active s' ''invoices'' = Some 1" by (cases "h = 1") auto
  have tset: "set (subscribe_targets ?ks) = {''invoices'', ''info''}" by (simp add: ts)
  show ?thesis using h1 h2 tset run i j len2 by blast
qed

text \<open>
  C2. For a key with an active entry, \<open>cancelSubscription\<close> returns a promise that is
  still pending when the call returns, although the cancel request has been sent on the
  key's handle. Whatever happens to the instance afterwards, the step at which the
  promise becomes resolved is an end event or a status event with code \<open>CANCELLED\<close>
  emitted by that handle, and after that step the key has no table entry. \<open>unsubscribe\<close>
  without arguments targets every key of the table and returns one such cancellation per
  key, each with the same property for the handle of its key.
\<close>

theorem cancellation_resolves_only_on_terminating_event:
  assumes "wf s"
  shows "(\<forall>h. active s k = Some h \<longrightarrow>
            (\<exists>p. fst (cancelSubscription k s) = Pending p \<and>
                 \<not> resolved (snd (cancelSubscription k s)) (Pending p) \<and>
                 cancels (streams (snd (cancelSubscription k s)) ! h) = Suc (cancels (streams s ! h)) \<and>
                 (\<forall>as a. \<not> resolved (run as (snd (cancelSubscription k s))) (Pending p) \<and>
                         resolved (step a (run as (snd (cancelSubscription k s)))) (Pending p) \<longrightarrow>
                         (\<exists>ev. a = StreamEmit h ev \<and> terminating ev) \<and>
                         k \<notin> set (keys (table (step a (run as (snd (cancelSubscription k s)))))))))
         \<and> unsubscribe_targets [] s = keys (table s)
         \<and> length (fst (unsubscribe [] s)) = length (keys (table s))
         \<and> (\<forall>i < length (keys (table s)). \<forall>h. active s (keys (table s) ! i) = Some h \<longrightarrow>
            (\<exists>p. fst (unsubscribe [] s) ! i = Pending p \<and>
                 \<not> resolved (snd (unsubscribe [] s)) (Pending p) \<and>
                 (\<forall>as a. \<not> resolved (run as (snd (unsubscribe [] s))) (Pending p) \<and>
                         resolved (step a (run as (snd (unsubscribe [] s)))) (Pending p) \<longrightarrow>
                         (\<exists>ev. a = StreamEmit h ev \<and> terminating ev) \<and>
                         keys (table s) ! i \<notin> set (keys (table (step a (run as (snd (unsubscribe [] s)))))))))"
proof -
  have single: "\<forall>h. active s k = Some h \<longrightarrow>
            (\<exists>p. fst (cancelSubscription k s) = Pending p \<and>
                 \<not> resolved (snd (cancelSubscription k s)) (Pending p) \<and>
                 cancels (streams (snd (cancelSubscription k s)) ! h) = Suc (cancels (streams s ! h)) \<and>
                 (\<forall>as a. \<not> resolved (run as (snd (cancelSubscription k s))) (Pending p) \<and>
                         resolved (step a (run as (snd (cancelSubscription k s)))) (Pending p) \<longrightarrow>
                         (\<exists>ev. a = StreamEmit h ev \<and> terminating ev) \<and>
                         k \<notin> set (keys (table (step a (run as (snd (cancelSubscription k s))))))))"
  proof (intro allI impI)
    fix h assume act: "active s k = Some h"
    let ?p = "length (promises s)"
    let ?s0 = "snd (cancelSubscription k s)"
    have hv: "h < length (streams s)" using assms act by (simp add: wf_def)
    have eq: "cancelSubscription k s = (Pending ?p, cancelling k h s)"
      using cancelSubscription_active[OF act] .
    have w0: "wf ?s0" using good_cancelSubscription[of s k] assms by (simp add: good_def)
    have t0: "tracks ?p h k ?s0" and u0: "\<not> promises ?s0 ! ?p"
      using tracks_cancelling[OF assms act] eq by simp_all
    have 1: "\<not> resolved ?s0 (Pending ?p)" using u0 by (simp add: resolved_def)
    have 2: "cancels (streams ?s0 ! h) = Suc (cancels (streams s ! h))"
      using cancelSubscription_requests_cancel[OF act hv] .
    have 3: "\<forall>as a. \<not> resolved (run as ?s0) (Pending ?p) \<and>
                         resolved (step a (run as ?s0)) (Pending ?p) \<longrightarrow>
                         (\<exists>ev. a = StreamEmit h ev \<and> terminating ev) \<and>
                         k \<notin> set (keys (table (step a (run as ?s0))))"
      using resolution_run[OF w0 t0] by blast
    show "\<exists>p. fst (cancelSubscription k s) = Pending p \<and>
                 \<not> resolved ?s0 (Pending p) \<and>
                 cancels (streams ?s0 ! h) = Suc (cancels (streams s ! h)) \<and>
                 (\<forall>as a. \<not> resolved (run as ?s0) (Pending p) \<and>
                         resolved (step a (run as ?s0)) (Pending p) \<longrightarrow>
                         (\<exists>ev. a = StreamEmit h ev \<and> terminating ev) \<and>
                         k \<notin> set (keys (table (step a (run as ?s0)))))"
      using eq 1 2 3 by (intro exI[of _ ?p]) simp
  qed
  let ?ks = "keys (table s)"
  let ?u = "snd (unsubscribe [] s)"
  have ts: "unsubscribe_targets [] s = ?ks" by (simp add: unsubscribe_targets_def)
  have wu: "wf ?u" using good_unsubscribe[of s "[]"] assms by (simp add: good_def)
  have len: "length (fst (unsubscribe [] s)) = length ?ks"
  proof (cases "?ks = []")
    case True
    then show ?thesis by (simp add: unsubscribe_def ts)
  next
    case False
    then show ?thesis
      using cancel_each_effect[of ?ks "logmsg (InfoUnsubscribing ?ks) s"]
      by (simp add: unsubscribe_def ts Let_def)
  qed
  have batch: "\<forall>i < length ?ks. \<forall>h. active s (?ks ! i) = Some h \<longrightarrow>
            (\<exists>p. fst (unsubscribe [] s) ! i = Pending p \<and>
                 \<not> resolved ?u (Pending p) \<and>
                 (\<forall>as a. \<not> resolved (run as ?u) (Pending p) \<and>
                         resolved (step a (run as ?u)) (Pending p) \<longrightarrow>
                         (\<exists>ev. a = StreamEmit h ev \<and> terminating ev) \<and>
                         ?ks ! i \<notin> set (keys (table (step a (run as ?u))))))"
  proof (intro allI impI)
    fix i h assume i: "i < length ?ks" and act: "active s (?ks ! i) = Some h"
    let ?s0 = "logmsg (InfoUnsubscribing ?ks) s"
    have ne: "?ks \<noteq> []" using i by auto
    have eq: "unsubscribe [] s = cancel_each ?ks ?s0"
      using ne by (simp add: unsubscribe_def ts Let_def)
    have w0: "wf ?s0" using assms by (rule wf_logmsg)
    have act0: "active ?s0 (?ks ! i) = Some h" using act by simp
    obtain p where p: "fst (cancel_each ?ks ?s0) ! i = Pending p"
      and t: "tracks p h (?ks ! i) (snd (cancel_each ?ks ?s0))"
      and u: "\<not> promises (snd (cancel_each ?ks ?s0)) ! p"
      using cancel_each_tracks[OF w0 i act0] by blast
    have 1: "\<not> resolved ?u (Pending p)" using u eq by (simp add: resolved_def)
    have t': "tracks p h (?ks ! i) ?u" using t eq by simp
    have 3: "\<forall>as a. \<not> resolved (run as ?u) (Pending p) \<and>
                         resolved (step a (run as ?u)) (Pending p) \<longrightarrow>
                         (\<exists>ev. a = StreamEmit h ev \<and> terminating ev) \<and>
                         ?ks ! i \<notin> set (keys (table (step a (run as ?u))))"
      using resolution_run[OF wu t'] by blast
    show "\<exists>p. fst (unsubscribe [] s) ! i = Pending p \<and>
                 \<not> resolved ?u (Pending p) \<and>
                 (\<forall>as a. \<not> resolved (run as ?u) (Pending p) \<and>
                         resolved (step a (run as ?u)) (Pending p) \<longrightarrow>
                         (\<exists>ev. a = StreamEmit h ev \<and> terminating ev) \<and>
                         ?ks ! i \<notin> set (keys (table (step a (run as ?u)))))"
      using p 1 3 eq by (intro exI[of _ p]) simp
  qed
  show ?thesis using single ts len batch by blast
qed

theorem cancellation_resolves_only_on_terminating_event_witness:
  "wf example_subscribed \<and> active example_subscribed ''info'' = Some 0 \<and>
   fst (cancelSubscription ''info'' example_subscribed) = Pending 0 \<and>
   \<not> resolved example_cancelling (Pending 0) \<and>
   cancels (streams example_cancelling ! 0) = Suc 0 \<and>
   resolved (step (StreamEmit 0 End) example_cancelling) (Pending 0) \<and>
   ''info'' \<notin> set (keys (table (step (StreamEmit 0 End) example_cancelling)))"
proof -
  have act: "active example_subscribed ''info'' = Some 0"
    and c0: "cancels (streams example_subscribed ! 0) = 0"
    by (simp_all add: example_subscribed_eq example_connected_eq active_def table_def own_handle_def
        new_stream_def)
  have f: "fst (cancelSubscription ''info'' example_subscribed) = Pending 0"
    using cancelSubscription_active[OF act] by (simp add: example_subscribed_eq example_connected_eq)
  have after: "resolved (step (StreamEmit 0 End) example_cancelling) (Pending 0)"
    by (simp add: example_cancelling_eq example_connected_eq stream_emit_def resolved_def
        resolve_def logmsg_def delete_key_def set_table_def table_def delete_def)
  from cancellation_resolves_only_on_terminating_event[OF wf_example_subscribed, of "''info''"] act
  obtain p where p: "fst (cancelSubscription ''info'' example_subscribed) = Pending p"
    and un: "\<not> resolved example_cancelling (Pending p)"
    and cn: "cancels (streams example_cancelling ! 0) = Suc (cancels (streams example_subscribed ! 0))"
    and only: "\<forall>as a. \<not> resolved (run as example_cancelling) (Pending p) \<and>
                         resolved (step a (run as example_cancelling)) (Pending p) \<longrightarrow>
                         (\<exists>ev. a = StreamEmit 0 ev \<and> terminating ev) \<and>
                         ''info'' \<notin> set (keys (table (step a (run as example_cancelling))))"
    unfolding example_cancelling_def by blast
  have p0: "p = 0" using p f by simp
  have gone: "''info'' \<notin> set (keys (table (step (StreamEmit 0 End) example_cancelling)))"
    using only[rule_format, of "[]" "StreamEmit 0 End"] un after p0 by simp
  show ?thesis
    using wf_example_subscribed act f un cn c0 after gone p0 by simp
qed

text \<open>
  C3 (counterexample). In the example run a single listener is registered by
  \<open>subscribeAll\<close>, and it starts the channel-graph subscription twice: on the first
  synced info event (handle 3) and, after that stream has ended, on the next synced info
  event (handle 5).
\<close>

theorem sync_gate_triggers_twice:
  "gates (run example_trace example_connected) = Suc 0 \<and>
   active (run (take 1 example_trace) example_connected) ''channelgraph'' = None \<and>
   active (run (take 2 example_trace) example_connected) ''channelgraph'' = Some 3 \<and>
   active (run (take 5 example_trace) example_connected) ''channelgraph'' = None \<and>
   active (run example_trace example_connected) ''channelgraph'' = Some 5 \<and>
   streams (run example_trace example_connected) ! 3 =
     new_stream ''subscribeTransactions'' ''channelgraph'' \<and>
   streams (run example_trace example_connected) ! 5 =
     new_stream ''subscribeTransactions'' ''channelgraph'' \<and>
   count_list (grpcLog (run example_trace example_connected)) (InfoStarted ''channelgraph'') = 2"
  by code_simp

text \<open>
  C3 (amended). \<open>subscribeAll\<close> itself does not start the channel-graph subscription;
  it registers one more listener. An info data event observed by the instance starts the
  channel-graph subscription if and only if the payload's \<open>synced_to_chain\<close> is truthy
  and the channel-graph key is not active at that moment: otherwise the state does not
  change. When it starts it, the stream is opened under the key \<open>channelgraph\<close>, and in
  the same step the info subscription is unsubscribed: a cancel request is sent on the
  info handle and the forwarders of \<open>subscribeGetInfo\<close> are detached. In the state
  reached, where the channel-graph key is active, a further info data event changes
  nothing.
\<close>

theorem sync_gate_rule:
  assumes "wf s" and "lightning_ready s"
  shows "fst (subscribeAll s) = None \<and>
         active (snd (subscribeAll s)) ''channelgraph'' = active s ''channelgraph'' \<and>
         gates (snd (subscribeAll s)) = Suc (gates s) \<and>
         (\<not> (truthy d \<and> active s ''channelgraph'' = None) \<longrightarrow>
            bus_emit ''subscribeGetInfo.data'' d s = (None, s)) \<and>
         (0 < gates s \<and> truthy d \<and> active s ''channelgraph'' = None \<longrightarrow>
            (\<exists>s'. bus_emit ''subscribeGetInfo.data'' d s = (None, s') \<and>
                  active s' ''channelgraph'' = Some (length (streams s)) \<and>
                  length (streams s') = Suc (length (streams s)) \<and>
                  streams s' ! length (streams s) =
                    new_stream ''subscribeTransactions'' ''channelgraph'' \<and>
                  (\<forall>h. active s ''info'' = Some h \<longrightarrow>
                     cancels (streams s' ! h) = Suc (cancels (streams s ! h)) \<and>
                     ''subscribeGetInfo'' \<notin> set (forwarded s')) \<and>
                  (\<forall>d'. bus_emit ''subscribeGetInfo.data'' d' s' = (None, s'))))"
proof -
  have ok: "heap_ok s" using assms(1) by (rule wf_heap_ok)
  have idle: "\<not> (truthy d \<and> active s ''channelgraph'' = None) \<longrightarrow>
            bus_emit ''subscribeGetInfo.data'' d s = (None, s)"
    by (simp add: bus_emit_def run_gates_idle)
  have trig: "0 < gates s \<and> truthy d \<and> active s ''channelgraph'' = None \<longrightarrow>
            (\<exists>s'. bus_emit ''subscribeGetInfo.data'' d s = (None, s') \<and>
                  active s' ''channelgraph'' = Some (length (streams s)) \<and>
                  length (streams s') = Suc (length (streams s)) \<and>
                  streams s' ! length (streams s) =
                    new_stream ''subscribeTransactions'' ''channelgraph'' \<and>
                  (\<forall>h. active s ''info'' = Some h \<longrightarrow>
                     cancels (streams s' ! h) = Suc (cancels (streams s ! h)) \<and>
                     ''subscribeGetInfo'' \<notin> set (forwarded s')) \<and>
                  (\<forall>d'. bus_emit ''subscribeGetInfo.data'' d' s' = (None, s')))"
  proof (intro impI)
    assume h: "0 < gates s \<and> truthy d \<and> active s ''channelgraph'' = None"
    then obtain n where n: "gates s = Suc n" by (cases "gates s") auto
    from gate_triggers[OF assms] h obtain s' where
      g: "gate d s = (None, s')"
      and a: "active s' ''channelgraph'' = Some (length (streams s))"
      and rest: "length (streams s') = Suc (length (streams s))"
        "streams s' ! length (streams s) = new_stream ''subscribeTransactions'' ''channelgraph''"
        "\<forall>h. active s ''info'' = Some h \<longrightarrow>
                     cancels (streams s' ! h) = Suc (cancels (streams s ! h)) \<and>
                     ''subscribeGetInfo'' \<notin> set (forwarded s')"
      by blast
    have quiet: "\<And>m d'. run_gates m d' s' = (None, s')"
      using a by (simp add: run_gates_idle)
    have e: "bus_emit ''subscribeGetInfo.data'' d s = (None, s')"
      using g quiet[of n d] by (simp add: bus_emit_def n)
    have later: "\<forall>d'. bus_emit ''subscribeGetInfo.data'' d' s' = (None, s')"
      using quiet by (simp add: bus_emit_def)
    show "\<exists>s'. bus_emit ''subscribeGetInfo.data'' d s = (None, s') \<and>
                  active s' ''channelgraph'' = Some (length (streams s)) \<and>
                  length (streams s') = Suc (length (streams s)) \<and>
                  streams s' ! length (streams s) =
                    new_stream ''subscribeTransactions'' ''channelgraph'' \<and>
                  (\<forall>h. active s ''info'' = Some h \<longrightarrow>
                     cancels (streams s' ! h) = Suc (cancels (streams s ! h)) \<and>
                     ''subscribeGetInfo'' \<notin> set (forwarded s')) \<and>
                  (\<forall>d'. bus_emit ''subscribeGetInfo.data'' d' s' = (None, s'))"
      using e a rest later by blast
  qed
  show ?thesis
    using subscribeAll_keeps_channelgraph[OF ok assms(2)] idle trig by blast
qed

theorem sync_gate_rule_witness:
  "wf example_all \<and> lightning_ready example_all \<and> 0 < gates example_all \<and>
   truthy (JBool True) \<and> active example_all ''channelgraph'' = None \<and>
   active example_all ''info'' = Some 2 \<and>
   (\<exists>s'. bus_emit ''subscribeGetInfo.data'' (JBool True) example_all = (None, s') \<and>
         active s' ''channelgraph'' = Some 3 \<and>
         streams s' ! 3 = new_stream ''subscribeTransactions'' ''channelgraph'' \<and>
         cancels (streams s' ! 2) = Suc 0 \<and>
         ''subscribeGetInfo'' \<notin> set (forwarded s') \<and>
         (\<forall>d'. bus_emit ''subscribeGetInfo.data'' d' s' = (None, s')))"
proof -
  have r: "lightning_ready example_all" by code_simp
  have g: "0 < gates example_all" by code_simp
  have c: "active example_all ''channelgraph'' = None" by code_simp
  have i: "active example_all ''info'' = Some 2" by code_simp
  have n: "length (streams example_all) = 3" by code_simp
  have z: "cancels (streams example_all ! 2) = 0" by code_simp
  from sync_gate_rule[OF wf_example_all r, of "JBool True"] g c
  obtain s' where e: "bus_emit ''subscribeGetInfo.data'' (JBool True) example_all = (None, s')"
    and a: "active s' ''channelgraph'' = Some (length (streams example_all))"
    and st: "streams s' ! length (streams example_all) =
                    new_stream ''subscribeTransactions'' ''channelgraph''"
    and inf: "\<forall>h. active example_all ''info'' = Some h \<longrightarrow>
                     cancels (streams s' ! h) = Suc (cancels (streams example_all ! h)) \<and>
                     ''subscribeGetInfo'' \<notin> set (forwarded s')"
    and later: "\<forall>d'. bus_emit ''subscribeGetInfo.data'' d' s' = (None, s')"
    by auto
  have "cancels (streams s' ! 2) = Suc 0 \<and> ''subscribeGetInfo'' \<notin> set (forwarded s')"
    using inf i z by simp
  then show ?thesis
    using wf_example_all r g c i e a st later n by auto
qed

text \<open>
  C4. On an instance as the constructor leaves it, \<open>getConnectionSettings\<close> returns
  \<open>useMacaroon = undefined\<close> for every options record, because the member
  \<open>this.useMacaroon\<close> it reads is never assigned; so it does for the settings that
  \<open>connect\<close> hands to the transport for a local wallet whose id is not \<open>tmp\<close>, while
  \<open>waitForMacaroon\<close> and \<open>waitForCert\<close> are true there.
\<close>

theorem getConnectionSettings_after_construction:
  "useMacaroon (getConnectionSettings (constructor\<lparr>options := opts\<rparr>)) = JUndefined \<and>
   useMacaroon (tsettings (transports example_connected ! 0)) = JUndefined \<and>
   waitForMacaroon (tsettings (transports example_connected ! 0)) \<and>
   waitForCert (tsettings (transports example_connected ! 0)) \<and>
   opt_type example_options = JString ''local'' \<and> opt_id example_options \<noteq> JString ''tmp''"
  by (simp add: getConnectionSettings_def constructor_def assign_INITIAL_STATE_def js_and_def
      example_connected_eq example_options_def)

text \<open>
  C5. \<open>connect\<close> raises the already-connected error exactly when the \<open>grpc\<close> member
  refers to a transport whose state is not \<open>ready\<close>, and then leaves the state as it
  was. Otherwise it stores the options, appends a new transport built by the external
  constructor from \<open>getConnectionSettings\<close>, makes \<open>grpc\<close> refer to it, and takes the
  transport's Lightning service, with the subscription methods injected, as its registry.
\<close>

theorem connect_already_connected:
  "(fst (connect opts LndGrpc s) = Some AlreadyConnected \<longleftrightarrow>
      (\<exists>i. grpc s = Some i \<and> tstate (transports s ! i) \<noteq> ''ready'')) \<and>
   (fst (connect opts LndGrpc s) = Some AlreadyConnected \<longrightarrow>
      snd (connect opts LndGrpc s) = s) \<and>
   (fst (connect opts LndGrpc s) \<noteq> Some AlreadyConnected \<longrightarrow>
      options (snd (connect opts LndGrpc s)) = opts \<and>
      grpc (snd (connect opts LndGrpc s)) = Some (length (transports s)) \<and>
      length (transports (snd (connect opts LndGrpc s))) = Suc (length (transports s)) \<and>
      take (length (transports s)) (transports (snd (connect opts LndGrpc s))) = transports s \<and>
      tsettings (transports (snd (connect opts LndGrpc s)) ! length (transports s)) =
        tsettings (LndGrpc (getConnectionSettings (s\<lparr>options := opts\<rparr>))) \<and>
      services (snd (connect opts LndGrpc s)) =
        map_option (\<lambda>lightning. object_assign lightning lightningSubscriptions)
          (tservices (LndGrpc (getConnectionSettings (s\<lparr>options := opts\<rparr>)))))"
  by (auto simp: connect_def already_connected_def Let_def nth_append
      split: option.splits)

theorem connect_already_connected_witness:
  "fst (connect example_options example_LndGrpc example_active) = Some AlreadyConnected \<and>
   snd (connect example_options example_LndGrpc example_active) = example_active \<and>
   fst (connect example_options example_LndGrpc constructor) \<noteq> Some AlreadyConnected \<and>
   grpc (snd (connect example_options example_LndGrpc constructor)) = Some 0 \<and>
   options (snd (connect example_options example_LndGrpc constructor)) = example_options"
proof -
  have a: "\<exists>i. grpc example_active = Some i \<and> tstate (transports example_active ! i) \<noteq> ''ready''"
    by (simp add: example_active_eq example_connected_eq)
  have b: "\<not> (\<exists>i. grpc constructor = Some i \<and> tstate (transports constructor ! i) \<noteq> ''ready'')"
    by (simp add: constructor_def assign_INITIAL_STATE_def)
  have n: "length (transports constructor) = 0"
    by (simp add: constructor_def assign_INITIAL_STATE_def)
  from connect_already_connected[of example_options example_LndGrpc example_active] a
  have 1: "fst (connect example_options example_LndGrpc example_active) = Some AlreadyConnected \<and>
   snd (connect example_options example_LndGrpc example_active) = example_active"
    by blast
  from connect_already_connected[of example_options example_LndGrpc constructor] b
  have 2: "fst (connect example_options example_LndGrpc constructor) \<noteq> Some AlreadyConnected \<and>
   grpc (snd (connect example_options example_LndGrpc constructor)) = Some (length (transports constructor)) \<and>
   options (snd (connect example_options example_LndGrpc constructor)) = example_options"
    by blast
  show ?thesis using 1 2 n by simp
qed

text \<open>
  C6 (counterexample). On a connected instance whose transport can disconnect,
  \<open>disconnect\<close> awaits the teardown; when the teardown fails the error is thrown and
  the options and the services are still those of the connection.
\<close>

theorem disconnect_failed_teardown_counterexample:
  "fst (disconnect example_active) = Awaiting \<and>
   fst (disconnect_settled False (snd (disconnect example_active))) = Some TeardownFailed \<and>
   options (snd (disconnect_settled False (snd (disconnect example_active)))) \<noteq> INITIAL_STATE_options \<and>
   services (snd (disconnect_settled False (snd (disconnect example_active)))) \<noteq> INITIAL_STATE_services"
  by (simp add: disconnect_def disconnect_settled_def example_active_eq example_connected_eq
      example_options_def INITIAL_STATE_options_def INITIAL_STATE_services_def)

text \<open>
  C6 (amended). \<open>disconnect\<close> on an instance with no transport completes without
  error; every \<open>disconnect\<close> that runs to its end, at once or after a teardown that
  succeeded, leaves the options and the services in their initial empty shape; a
  \<open>disconnect\<close> whose teardown fails throws and leaves the state as it was.
\<close>

theorem disconnect_resets_on_completion:
  "(grpc s = None \<longrightarrow> fst (disconnect s) = Completed) \<and>
   (fst (disconnect s) = Completed \<longrightarrow>
      options (snd (disconnect s)) = INITIAL_STATE_options \<and>
      services (snd (disconnect s)) = INITIAL_STATE_services) \<and>
   fst (disconnect_settled True s) = None \<and>
   options (snd (disconnect_settled True s)) = INITIAL_STATE_options \<and>
   services (snd (disconnect_settled True s)) = INITIAL_STATE_services \<and>
   disconnect_settled False s = (Some TeardownFailed, s)"
  by (auto simp: disconnect_def disconnect_settled_def assign_INITIAL_STATE_def
      split: option.splits if_splits)

theorem disconnect_resets_on_completion_witness:
  "grpc constructor = None \<and> fst (disconnect constructor) = Completed \<and>
   options (snd (disconnect constructor)) = INITIAL_STATE_options \<and>
   services (snd (disconnect constructor)) = INITIAL_STATE_services"
proof -
  have g: "grpc constructor = None"
    by (simp add: constructor_def assign_INITIAL_STATE_def)
  from disconnect_resets_on_completion[of constructor] g show ?thesis by blast
qed




text \<open>
  C8 (counterexample). In the example run the entry of \<open>info\<close> for handle 0 has been
  removed and the key has been subscribed again with handle 1. The end event that the
  detached handle 0 delivers afterwards throws nothing, but it deletes the entry of the
  new subscription: the table changes.
\<close>

theorem stale_event_removes_new_entry:
  "table (run [Subscribe [''info''], StreamEmit 0 (Status CANCELLED)] example_connected) = [] \<and>
   table example_resubscribed = [(''info'', Some 1)] \<and>
   fst (stream_emit 0 End example_resubscribed) = None \<and>
   table (snd (stream_emit 0 End example_resubscribed)) = [] \<and>
   table (snd (stream_emit 0 End example_resubscribed)) \<noteq> table example_resubscribed"
  by code_simp

text \<open>
  C8 (amended). As long as the key a stream handle was opened for has no table entry, an
  end event or a status event with code \<open>CANCELLED\<close> on that handle throws nothing and
  leaves the whole table as it was. In particular, after one such event on a handle its
  key has no entry, and a further such event on the same handle changes nothing.
\<close>

theorem detached_handle_events_are_noops:
  assumes "wf s" and "h < length (streams s)" and "terminating ev" and "terminating ev'"
  shows "(handle_key s h \<notin> set (keys (table s)) \<longrightarrow>
            fst (stream_emit h ev s) = None \<and> table (snd (stream_emit h ev s)) = table s) \<and>
         handle_key s h \<notin> set (keys (table (snd (stream_emit h ev s)))) \<and>
         fst (stream_emit h ev' (snd (stream_emit h ev s))) = None \<and>
         table (snd (stream_emit h ev' (snd (stream_emit h ev s)))) =
           table (snd (stream_emit h ev s))"
proof -
  let ?s1 = "snd (stream_emit h ev s)"
  have w1: "wf ?s1" using assms(1) by (rule wf_stream_emit)
  obtain ls where eq: "stream_emit h ev s = (None, run_listeners ls ev s)"
    using stream_emit_terminating[OF assms(2,3)] by blast
  have h1: "h < length (streams ?s1)" and k1: "handle_key ?s1 h = handle_key s h"
    using assms(2) eq by (simp_all add: run_listeners_frame)
  have gone: "handle_key s h \<notin> set (keys (table ?s1))"
    using terminating_removes_key[OF assms(1,2,3)] .
  have again: "fst (stream_emit h ev' ?s1) = None \<and>
      table (snd (stream_emit h ev' ?s1)) = table ?s1"
    using detached_noop[OF w1 h1 assms(4)] gone k1 by simp
  show ?thesis
    using detached_noop[OF assms(1,2,3)] gone again by blast
qed

theorem detached_handle_events_are_noops_witness:
  "wf example_subscribed \<and> 0 < length (streams example_subscribed) \<and>
   terminating (Status CANCELLED) \<and> terminating End \<and>
   handle_key example_subscribed 0 = ''info'' \<and>
   active example_subscribed ''info'' = Some 0 \<and>
   ''info'' \<notin> set (keys (table (snd (stream_emit 0 (Status CANCELLED) example_subscribed)))) \<and>
   fst (stream_emit 0 End (snd (stream_emit 0 (Status CANCELLED) example_subscribed))) = None \<and>
   table (snd (stream_emit 0 End (snd (stream_emit 0 (Status CANCELLED) example_subscribed)))) =
     table (snd (stream_emit 0 (Status CANCELLED) example_subscribed))"
proof -
  have n: "0 < length (streams example_subscribed)"
    and k: "handle_key example_subscribed 0 = ''info''"
    and a: "active example_subscribed ''info'' = Some 0"
    by (simp_all add: example_subscribed_eq example_connected_eq handle_key_def active_def
        table_def own_handle_def)
  have t1: "terminating (Status CANCELLED)" and t2: "terminating End" by simp_all
  from detached_handle_events_are_noops[OF wf_example_subscribed n t1 t2]
  show ?thesis using wf_example_subscribed n k a by simp
qed

text \<open>
  C9. \<open>SUBSCRIPTIONS\<close> binds the key \<open>transactions\<close> to the method
  \<open>subscribeChannelGraph\<close> and the key \<open>channelgraph\<close> to the method
  \<open>subscribeTransactions\<close>; subscribing to one of these keys opens the stream with that
  method, stores the handle under the key and forwards the events of that method.
\<close>

theorem SUBSCRIPTIONS_swapped:
  assumes "(k, m) = (''transactions'', ''subscribeChannelGraph'') \<or>
           (k, m) = (''channelgraph'', ''subscribeTransactions'')"
    and "heap_ok s"
    and "active s k = None"
    and "services s = Some lightning"
    and "map_of lightning m = Some ReturnsStream"
  shows "map_of SUBSCRIPTIONS k = Some m \<and>
         (\<exists>s'. subscribe [k] s = (None, s') \<and>
               streams s' = streams s @ [new_stream m k] \<and>
               active s' k = Some (length (streams s)) \<and>
               m \<in> set (forwarded s'))"
proof -
  have m: "map_of SUBSCRIPTIONS k = Some m"
    using assms(1) by (auto simp: SUBSCRIPTIONS_def)
  have t: "subscribe_targets [k] = [k]"
    using assms(1)
    by (auto simp: subscribe_targets_def intersection_def allSubKeys_def SUBSCRIPTIONS_def)
  let ?s0 = "logmsg (InfoSubscribing [k]) s"
  have plain: "k \<notin> set object_prototype_names"
    using assms(1) by (auto simp: object_prototype_names_def)
  have a0: "entry ?s0 k = NoMember" using assms(3) plain by (simp add: entry_plain)
  have a1: "services ?s0 = Some lightning" using assms(4) by (simp add: logmsg_def)
  show ?thesis
    using m t a0 a1 assms(2,5)
    by (simp add: subscribe_def subscribe_key_def Let_def forwardAll_def logmsg_def
        active_def table_def set_table_def own_handle_assign_same heap_ok_def)
qed

theorem SUBSCRIPTIONS_swapped_witness:
  "heap_ok example_connected \<and> active example_connected ''transactions'' = None \<and>
   services example_connected = Some lightningSubscriptions \<and>
   map_of lightningSubscriptions ''subscribeChannelGraph'' = Some ReturnsStream \<and>
   map_of SUBSCRIPTIONS ''transactions'' = Some ''subscribeChannelGraph'' \<and>
   (\<exists>s'. subscribe [''transactions''] example_connected = (None, s') \<and>
         streams s' = [new_stream ''subscribeChannelGraph'' ''transactions''] \<and>
         active s' ''transactions'' = Some 0 \<and>
         ''subscribeChannelGraph'' \<in> set (forwarded s'))"
proof -
  have h2: "heap_ok example_connected"
    by (simp add: heap_ok_def example_connected_eq)
  have h3: "active example_connected ''transactions'' = None"
    by (simp add: active_def table_def own_handle_def example_connected_eq)
  have h4: "services example_connected = Some lightningSubscriptions"
    by (simp add: example_connected_eq)
  have h5: "map_of lightningSubscriptions ''subscribeChannelGraph'' = Some ReturnsStream"
    by (simp add: lightningSubscriptions_def SUBSCRIPTIONS_def)
  have n: "streams example_connected = []"
    by (simp add: example_connected_eq)
  from SUBSCRIPTIONS_swapped[OF _ h2 h3 h4 h5]
  have "map_of SUBSCRIPTIONS ''transactions'' = Some ''subscribeChannelGraph'' \<and>
         (\<exists>s'. subscribe [''transactions''] example_connected = (None, s') \<and>
               streams s' = streams example_connected @
                  [new_stream ''subscribeChannelGraph'' ''transactions''] \<and>
               active s' ''transactions'' = Some (length (streams example_connected)) \<and>
               ''subscribeChannelGraph'' \<in> set (forwarded s'))"
    by simp
  then show ?thesis using h2 h3 h4 h5 n by simp
qed

text \<open>
  C10. Neither part of \<open>disconnect\<close> changes the \<open>grpc\<close> member: of the instance's
  members, a completed \<open>disconnect\<close> assigns only \<open>options\<close>, \<open>services\<close> and
  \<open>subscriptions\<close>. So after \<open>disconnect\<close> the member still refers to the previous
  transport, and a following \<open>connect\<close> raises the already-connected error exactly when
  that transport's state is not \<open>ready\<close>.
\<close>

theorem disconnect_keeps_grpc:
  "grpc (snd (disconnect s)) = grpc s \<and>
   grpc (snd (disconnect_settled b s)) = grpc s \<and>
   this_useMacaroon (snd (disconnect_settled b s)) = this_useMacaroon s \<and>
   gates (snd (disconnect_settled b s)) = gates s \<and>
   heap (snd (disconnect_settled b s)) = heap s \<and>
   streams (snd (disconnect_settled b s)) = streams s \<and>
   options (snd (disconnect_settled True s)) = INITIAL_STATE_options \<and>
   services (snd (disconnect_settled True s)) = INITIAL_STATE_services \<and>
   subscriptions (snd (disconnect_settled True s)) = INITIAL_STATE_subscriptions \<and>
   (fst (connect opts LndGrpc (snd (disconnect_settled b s))) = Some AlreadyConnected \<longleftrightarrow>
      (\<exists>i. grpc s = Some i \<and> tstate (transports s ! i) \<noteq> ''ready'')) \<and>
   (fst (connect opts LndGrpc (snd (disconnect s))) = Some AlreadyConnected \<longleftrightarrow>
      (\<exists>i. grpc s = Some i \<and> tstate (transports s ! i) \<noteq> ''ready''))"
proof -
  have g1: "grpc (snd (disconnect s)) = grpc s"
    by (simp add: disconnect_def assign_INITIAL_STATE_def removeAllListeners_fields
        split: option.splits)
  have t1: "\<And>j. tstate (transports (snd (disconnect s)) ! j) = tstate (transports s ! j)"
    by (simp add: disconnect_def assign_INITIAL_STATE_def removeAllListeners_fields
        tstate_list_update_teardowns split: option.splits)
  have g2: "grpc (snd (disconnect_settled b s)) = grpc s"
    and f2: "this_useMacaroon (snd (disconnect_settled b s)) = this_useMacaroon s"
      "gates (snd (disconnect_settled b s)) = gates s"
      "heap (snd (disconnect_settled b s)) = heap s"
      "streams (snd (disconnect_settled b s)) = streams s"
    and t2: "\<And>j. tstate (transports (snd (disconnect_settled b s)) ! j) = tstate (transports s ! j)"
    by (simp_all add: disconnect_settled_def assign_INITIAL_STATE_def removeAllListeners_fields)
  have r: "options (snd (disconnect_settled True s)) = INITIAL_STATE_options"
    "services (snd (disconnect_settled True s)) = INITIAL_STATE_services"
    "subscriptions (snd (disconnect_settled True s)) = INITIAL_STATE_subscriptions"
    by (simp_all add: disconnect_settled_def assign_INITIAL_STATE_def)
  have c: "\<And>s'. fst (connect opts LndGrpc s') = Some AlreadyConnected \<longleftrightarrow>
      (\<exists>i. grpc s' = Some i \<and> tstate (transports s' ! i) \<noteq> ''ready'')"
    by (auto simp: connect_def already_connected_def Let_def split: option.splits)
  show ?thesis
    unfolding c using g1 t1 g2 f2 t2 r by simp
qed

end
